theory Spec2Isabelle
  imports Main
begin

unbundle bit_operations_syntax

section \<open>Python values used by screen.py\<close>

text \<open>
  Exceptions that the modelled methods of \<^verbatim>\<open>asciimatics/screen.py\<close> can raise are values of
  \<open>error\<close>; a method that can raise returns \<open>error + 'a\<close> with \<open>Inl\<close> for the exception.
\<close>

datatype error = IndexError | KeyError | TypeError | RecursionError

text \<open>
  \<^verbatim>\<open>xs[i]\<close> and \<^verbatim>\<open>xs[i] = v\<close> on a Python list: an index in \<open>[-len, 0)\<close> counts from the end,
  anything outside \<open>[-len, len)\<close> raises IndexError.
\<close>

definition getitem :: "'a list \<Rightarrow> int \<Rightarrow> error + 'a" where
  "getitem xs i =
     (if 0 \<le> i \<and> i < int (length xs) then Inr (xs ! nat i)
      else if - int (length xs) \<le> i \<and> i < 0 then Inr (xs ! nat (int (length xs) + i))
      else Inl IndexError)"

definition setitem :: "'a list \<Rightarrow> int \<Rightarrow> 'a \<Rightarrow> error + 'a list" where
  "setitem xs i v =
     (if 0 \<le> i \<and> i < int (length xs) then Inr (xs[nat i := v])
      else if - int (length xs) \<le> i \<and> i < 0 then Inr (xs[nat (int (length xs) + i) := v])
      else Inl IndexError)"

text \<open>
  The slices \<^verbatim>\<open>text[k:]\<close> and \<^verbatim>\<open>text[:k]\<close>: a negative bound counts from the end and
  is clamped at the start of the sequence; slices never raise.
\<close>

definition slice_from :: "'a list \<Rightarrow> int \<Rightarrow> 'a list" where
  "slice_from xs k =
     (if 0 \<le> k then drop (nat k) xs else drop (nat (int (length xs) + k)) xs)"

definition slice_to :: "'a list \<Rightarrow> int \<Rightarrow> 'a list" where
  "slice_to xs k =
     (if 0 \<le> k then take (nat k) xs else take (nat (int (length xs) + k)) xs)"

text \<open>\<^verbatim>\<open>range(n)\<close>, and a \<^verbatim>\<open>for\<close> loop whose body may raise.\<close>

definition py_range :: "int \<Rightarrow> int list" where
  "py_range n = map int [0..<nat n]"

fun for_each :: "('a \<Rightarrow> 's \<Rightarrow> error + 's) \<Rightarrow> 'a list \<Rightarrow> 's \<Rightarrow> error + 's" where
  "for_each f [] s = Inr s"
| "for_each f (x # xs) s = (case f x s of Inl e \<Rightarrow> Inl e | Inr s' \<Rightarrow> for_each f xs s')"

section \<open>The screen object\<close>

text \<open>
  A cell is the tuple \<^verbatim>\<open>(character, colour, attr, bg)\<close>. Characters are 8-bit \<open>char\<close>s
  and \<^verbatim>\<open>ord\<close> is \<open>of_char\<close>.

  The two buffers are lists of rows and each row is a mutable list, so rows live in an explicit
  store: \<open>heap\<close> is the store of row objects, an address is an index into it, and
  \<open>screen_buffer\<close> and \<open>double_buffer\<close> are lists of row addresses. A fresh row is allocated
  at the end of the store. The code reads the committed buffer (what the terminal shows) from
  \<^verbatim>\<open>_screen_buffer\<close> and lets the drawing calls write \<^verbatim>\<open>_double_buffer\<close>, the pending one.
\<close>

type_synonym cell = "char \<times> int \<times> int \<times> int"

datatype backend = Windows | Curses | Blessed

text \<open>
  The four primitives that \<^verbatim>\<open>_BufferedScreen\<close> leaves abstract talk to the terminal. What they
  send is not modelled; \<open>device\<close> logs each invocation of a primitive with its arguments, and
  the effect of a primitive on the fields of the Python object is modelled for each backend.
\<close>

datatype device_call = Change_colours int int int | Print_at string int int | Clear | Scroll

text \<open>
  Fields of the object, named as in the source without the leading underscore; \<open>cur_x\<close>,
  \<open>cur_y\<close>, \<open>cur_colour\<close>, \<open>cur_attr\<close> and \<open>cur_bg\<close> are \<^verbatim>\<open>_x\<close>, \<^verbatim>\<open>_y\<close>, \<^verbatim>\<open>_colour\<close>,
  \<^verbatim>\<open>_attr\<close> and \<^verbatim>\<open>_bg\<close>, with \<open>None\<close> for Python's \<^verbatim>\<open>None\<close>. \<open>last_width\<close>, \<open>last_height\<close>
  and \<open>map_all\<close> exist on the Windows screen only and \<open>re_sized\<close> on the curses and blessed
  screens only. \<open>window\<close> is not a field: it is the rectangle \<open>(Left, Top, Right, Bottom)\<close> that
  \<^verbatim>\<open>GetConsoleScreenBufferInfo()['Window']\<close> currently answers on Windows.
\<close>

record screen =
  backend :: backend
  height :: int
  width :: int
  colours :: int
  start_line :: int
  cur_x :: "int option"
  cur_y :: "int option"
  heap :: "cell list list"
  screen_buffer :: "nat list"
  double_buffer :: "nat list"
  buffer_height :: int
  cur_colour :: "int option"
  cur_attr :: "int option"
  cur_bg :: "int option"
  last_start_line :: int
  last_width :: "int option"
  last_height :: "int option"
  map_all :: bool
  re_sized :: bool
  window :: "int \<times> int \<times> int \<times> int"
  device :: "device_call list"

subsection \<open>Constants of the class Screen\<close>

definition A_BOLD :: int where "A_BOLD = 1"
definition A_NORMAL :: int where "A_NORMAL = 2"
definition A_REVERSE :: int where "A_REVERSE = 3"
definition A_UNDERLINE :: int where "A_UNDERLINE = 4"

definition COLOUR_BLACK :: int where "COLOUR_BLACK = 0"
definition COLOUR_RED :: int where "COLOUR_RED = 1"
definition COLOUR_GREEN :: int where "COLOUR_GREEN = 2"
definition COLOUR_YELLOW :: int where "COLOUR_YELLOW = 3"
definition COLOUR_BLUE :: int where "COLOUR_BLUE = 4"
definition COLOUR_MAGENTA :: int where "COLOUR_MAGENTA = 5"
definition COLOUR_CYAN :: int where "COLOUR_CYAN = 6"
definition COLOUR_WHITE :: int where "COLOUR_WHITE = 7"

definition line_chars :: string where
  "line_chars = [CHR '' '', CHR 0x27, CHR 0x27] @ ''^.|/7.'' @ [CHR 0x5C] @ ''|Ywbd#''"

subsection \<open>Buffers: \<^verbatim>\<open>_reset\<close>\<close>

text \<open>
  \<open>alloc_rows h rows\<close> puts new row objects into the store and answers their addresses.
  \<^verbatim>\<open>[copy.deepcopy(line) for _ in range(self._buffer_height)]\<close> allocates one copy of
  \<^verbatim>\<open>line\<close> per row, and \<^verbatim>\<open>copy.deepcopy(self._screen_buffer)\<close> allocates a copy of every
  row of the first buffer.
\<close>

definition alloc_rows :: "cell list list \<Rightarrow> cell list list \<Rightarrow> cell list list \<times> nat list" where
  "alloc_rows h rows = (h @ rows, [length h..<length h + length rows])"

definition deepcopy :: "cell list list \<Rightarrow> nat list \<Rightarrow> cell list list \<times> nat list" where
  "deepcopy h buf = alloc_rows h (map (\<lambda>a. h ! a) buf)"

definition reset :: "screen \<Rightarrow> screen" where
  "reset s =
     (let line = map (\<lambda>_. (CHR '' '', 7, 0, 0)) (py_range (width s));
          (h1, sb) = alloc_rows (heap s) (map (\<lambda>_. line) (py_range (buffer_height s)));
          (h2, db) = deepcopy h1 sb
      in s\<lparr>start_line := 0, last_start_line := 0, cur_x := None, cur_y := None,
            heap := h2, screen_buffer := sb, double_buffer := db\<rparr>)"

subsection \<open>Constructors\<close>

text \<open>
  \<^verbatim>\<open>Screen.__init__\<close> followed by \<^verbatim>\<open>_BufferedScreen.__init__\<close>; the fields of the subclasses
  start at the values their constructors give them. \<open>win\<close> is the console window on Windows.
\<close>

definition BufferedScreen_init ::
  "backend \<Rightarrow> int \<Rightarrow> int \<Rightarrow> int \<Rightarrow> int \<times> int \<times> int \<times> int \<Rightarrow> screen" where
  "BufferedScreen_init be h w bh win =
     reset \<lparr>backend = be, height = h, width = w, colours = 0, start_line = 0,
            cur_x = None, cur_y = None, heap = [], screen_buffer = [], double_buffer = [],
            buffer_height = bh, cur_colour = None, cur_attr = None, cur_bg = None,
            last_start_line = 0, last_width = None, last_height = None, map_all = False,
            re_sized = False, window = win, device = []\<rparr>"

fun window_width :: "int \<times> int \<times> int \<times> int \<Rightarrow> int" where
  "window_width (l, t, r, b) = r - l + 1"

fun window_height :: "int \<times> int \<times> int \<times> int \<Rightarrow> int" where
  "window_height (l, t, r, b) = b - t + 1"

definition WindowsScreen_init :: "int \<times> int \<times> int \<times> int \<Rightarrow> int \<Rightarrow> screen" where
  "WindowsScreen_init win bh =
     (BufferedScreen_init Windows (window_height win) (window_width win) bh win)
       \<lparr>last_width := None, last_height := None, colours := 8, map_all := False\<rparr>"

text \<open>
  For curses the arguments are \<^verbatim>\<open>win.getmaxyx()\<close>, the buffer height and \<^verbatim>\<open>curses.COLORS\<close>;
  for blessed the terminal's height, width and \<^verbatim>\<open>number_of_colors\<close>.
\<close>

definition CursesScreen_init :: "int \<Rightarrow> int \<Rightarrow> int \<Rightarrow> int \<Rightarrow> screen" where
  "CursesScreen_init h w bh COLORS =
     (BufferedScreen_init Curses h w bh (0, 0, w - 1, h - 1))
       \<lparr>colours := COLORS, re_sized := False\<rparr>"

definition BlessedScreen_init :: "int \<Rightarrow> int \<Rightarrow> int \<Rightarrow> int \<Rightarrow> screen" where
  "BlessedScreen_init h w bh number_of_colors =
     (BufferedScreen_init Blessed h w bh (0, 0, w - 1, h - 1))
       \<lparr>colours := number_of_colors, re_sized := False\<rparr>"

subsection \<open>The backend primitives\<close>

text \<open>
  \<^verbatim>\<open>_change_colours\<close>. On Windows the three dictionaries \<^verbatim>\<open>_ATTRIBUTES\<close>, \<^verbatim>\<open>_COLOURS\<close> and
  \<^verbatim>\<open>_BG_COLOURS\<close> are looked up when the requested state differs from the cached one; on
  curses and blessed \<^verbatim>\<open>_ATTRIBUTES[attr]\<close> is looked up when the attribute changes to a
  non-zero value. A missing key raises KeyError. Only the keys of the dictionaries matter here.
\<close>

definition ATTRIBUTES_keys :: "backend \<Rightarrow> int list" where
  "ATTRIBUTES_keys be =
     (case be of Windows \<Rightarrow> [0, A_BOLD, A_NORMAL, A_REVERSE, A_UNDERLINE]
      | _ \<Rightarrow> [A_BOLD, A_NORMAL, A_REVERSE, A_UNDERLINE])"

definition COLOURS_keys :: "int list" where
  "COLOURS_keys = [COLOUR_BLACK, COLOUR_RED, COLOUR_GREEN, COLOUR_YELLOW, COLOUR_BLUE,
     COLOUR_MAGENTA, COLOUR_CYAN, COLOUR_WHITE]"

definition log_call :: "device_call \<Rightarrow> screen \<Rightarrow> screen" where
  "log_call c s = s\<lparr>device := device s @ [c]\<rparr>"

definition prim_change_colours :: "int \<Rightarrow> int \<Rightarrow> int \<Rightarrow> screen \<Rightarrow> error + screen" where
  "prim_change_colours colour attr bg s0 =
     (let s = log_call (Change_colours colour attr bg) s0 in
      case backend s of
        Windows \<Rightarrow>
          if Some colour \<noteq> cur_colour s \<or> Some attr \<noteq> cur_attr s \<or> cur_bg s \<noteq> Some bg then
            if attr \<notin> set (ATTRIBUTES_keys Windows) \<or> colour \<notin> set COLOURS_keys
               \<or> bg \<notin> set COLOURS_keys
            then Inl KeyError
            else Inr (s\<lparr>cur_attr := Some attr, cur_colour := Some colour, cur_bg := Some bg\<rparr>)
          else Inr s
      | Curses \<Rightarrow>
          if Some attr \<noteq> cur_attr s \<and> attr \<noteq> 0 \<and> attr \<notin> set (ATTRIBUTES_keys Curses)
          then Inl KeyError
          else
            let s1 = (if Some attr \<noteq> cur_attr s
                      then s\<lparr>cur_attr := Some attr, cur_colour := None, cur_bg := None\<rparr>
                      else s);
                s2 = (if Some colour \<noteq> cur_colour s1 then s1\<lparr>cur_colour := Some colour\<rparr> else s1)
            in Inr (if Some bg \<noteq> cur_bg s2 then s2\<lparr>cur_bg := Some bg\<rparr> else s2)
      | Blessed \<Rightarrow>
          if Some attr \<noteq> cur_attr s \<and> attr \<noteq> 0 \<and> attr \<notin> set (ATTRIBUTES_keys Blessed)
          then Inl KeyError
          else
            let s1 = (if Some attr \<noteq> cur_attr s
                      then s\<lparr>cur_attr := Some attr, cur_colour := None\<rparr>
                      else s);
                s2 = (if Some colour \<noteq> cur_colour s1 then s1\<lparr>cur_colour := Some colour\<rparr> else s1)
            in Inr (if Some bg \<noteq> cur_bg s2 then s2\<lparr>cur_bg := Some bg\<rparr> else s2))"

text \<open>
  \<^verbatim>\<open>_print_at\<close>: the Windows and the blessed screen remember where the terminal's cursor is
  left, in the same \<^verbatim>\<open>_x\<close> and \<^verbatim>\<open>_y\<close> that \<^verbatim>\<open>move\<close> and \<^verbatim>\<open>draw\<close> use; the curses screen
  does not.
\<close>

definition prim_print_at :: "string \<Rightarrow> int \<Rightarrow> int \<Rightarrow> screen \<Rightarrow> screen" where
  "prim_print_at text x y s0 =
     (let s = log_call (Print_at text x y) s0 in
      case backend s of
        Curses \<Rightarrow> s
      | _ \<Rightarrow> s\<lparr>cur_x := Some (x + int (length text)), cur_y := Some y\<rparr>)"

definition prim_scroll :: "screen \<Rightarrow> screen" where
  "prim_scroll s = log_call Scroll s"

definition prim_clear :: "screen \<Rightarrow> screen" where
  "prim_clear s = log_call Clear s"

subsection \<open>\<^verbatim>\<open>_BufferedScreen\<close>: scroll, clear, refresh, get_from, print_at\<close>

definition scroll :: "screen \<Rightarrow> screen" where
  "scroll s = s\<lparr>start_line := start_line s + 1\<rparr>"

definition clear :: "screen \<Rightarrow> error + screen" where
  "clear s =
     (case prim_change_colours COLOUR_WHITE 0 0 s of
        Inl e \<Rightarrow> Inl e
      | Inr s1 \<Rightarrow> Inr (reset (prim_clear s1)))"

text \<open>\<^verbatim>\<open>buf[y][x]\<close> and \<^verbatim>\<open>buf[y][x] = v\<close> for one of the two buffers.\<close>

definition load_cell :: "nat list \<Rightarrow> int \<Rightarrow> int \<Rightarrow> screen \<Rightarrow> error + cell" where
  "load_cell buf y x s =
     (case getitem buf y of
        Inl e \<Rightarrow> Inl e
      | Inr a \<Rightarrow> getitem (heap s ! a) x)"

definition store_cell :: "nat list \<Rightarrow> int \<Rightarrow> int \<Rightarrow> cell \<Rightarrow> screen \<Rightarrow> error + screen" where
  "store_cell buf y x v s =
     (case getitem buf y of
        Inl e \<Rightarrow> Inl e
      | Inr a \<Rightarrow>
          (case setitem (heap s ! a) x v of
             Inl e \<Rightarrow> Inl e
           | Inr row \<Rightarrow> Inr (s\<lparr>heap := (heap s)[a := row]\<rparr>)))"

text \<open>The body of the two nested loops of \<^verbatim>\<open>refresh\<close>, for one \<open>y\<close> and \<open>x\<close>.\<close>

definition refresh_cell :: "int \<Rightarrow> int \<Rightarrow> screen \<Rightarrow> error + screen" where
  "refresh_cell y x s =
     (case load_cell (double_buffer s) (y + start_line s) x s of
        Inl e \<Rightarrow> Inl e
      | Inr new_cell \<Rightarrow>
          (case load_cell (screen_buffer s) (y + start_line s) x s of
             Inl e \<Rightarrow> Inl e
           | Inr old_cell \<Rightarrow>
               if old_cell \<noteq> new_cell then
                 (case prim_change_colours (fst (snd new_cell)) (fst (snd (snd new_cell)))
                         (snd (snd (snd new_cell))) s of
                    Inl e \<Rightarrow> Inl e
                  | Inr s1 \<Rightarrow>
                      let s2 = prim_print_at [fst new_cell] x y s1
                      in store_cell (screen_buffer s2) (y + start_line s2) x new_cell s2)
               else Inr s))"

definition refresh :: "screen \<Rightarrow> error + screen" where
  "refresh s =
     (let s1 = (prim_scroll ^^ nat (start_line s - last_start_line s)) s;
          s2 = s1\<lparr>last_start_line := start_line s1\<rparr>
      in for_each
           (\<lambda>y s'. for_each (\<lambda>x. refresh_cell y x) (py_range (width s')) s')
           (py_range (height s2)) s2)"

definition get_from :: "int \<Rightarrow> int \<Rightarrow> screen \<Rightarrow> error + (int \<times> int \<times> int \<times> int)" where
  "get_from x y s =
     (case load_cell (screen_buffer s) y x s of
        Inl e \<Rightarrow> Inl e
      | Inr cell \<Rightarrow>
          Inr (of_char (fst cell), fst (snd cell), fst (snd (snd cell)), snd (snd (snd cell))))"

text \<open>The loop of \<^verbatim>\<open>print_at\<close> over \<^verbatim>\<open>enumerate(text)\<close>, from index \<open>i\<close> on.\<close>

fun print_chars ::
  "string \<Rightarrow> int \<Rightarrow> int \<Rightarrow> int \<Rightarrow> int \<Rightarrow> int \<Rightarrow> int \<Rightarrow> bool \<Rightarrow> screen \<Rightarrow> error + screen" where
  "print_chars [] i x y colour attr bg transparent s = Inr s"
| "print_chars (c # cs) i x y colour attr bg transparent s =
     (if c \<noteq> CHR '' '' \<or> \<not> transparent then
        (case store_cell (double_buffer s) y (x + i) (c, colour, attr, bg) s of
           Inl e \<Rightarrow> Inl e
         | Inr s' \<Rightarrow> print_chars cs (i + 1) x y colour attr bg transparent s')
      else print_chars cs (i + 1) x y colour attr bg transparent s)"

definition print_at ::
  "string \<Rightarrow> int \<Rightarrow> int \<Rightarrow> int \<Rightarrow> int \<Rightarrow> int \<Rightarrow> bool \<Rightarrow> screen \<Rightarrow> error + screen" where
  "print_at text x y colour attr bg transparent s =
     (if y < 0 \<or> y \<ge> buffer_height s then Inr s
      else
        let text1 = (if x < 0 then slice_from text (- x) else text);
            x1 = (if x < 0 then 0 else x);
            text2 = (if x1 + int (length text1) \<ge> width s
                     then slice_to text1 (width s - x1) else text1)
        in if length text2 > 0
           then print_chars text2 0 x1 y colour attr bg transparent s
           else Inr s)"

subsection \<open>\<^verbatim>\<open>Screen\<close>: paint, centre, putch\<close>

text \<open>
  An entry of \<^verbatim>\<open>colour_map\<close> is a tuple of up to three components, each an integer or
  \<^verbatim>\<open>None\<close>; \<open>override m k v\<close> is the value that component \<open>k\<close> of the entry \<open>m\<close> leaves in
  the running colour, attribute or background \<open>v\<close>.
\<close>

definition override :: "int option list \<Rightarrow> nat \<Rightarrow> int \<Rightarrow> int" where
  "override m k v =
     (if length m > k then (case m ! k of None \<Rightarrow> v | Some c \<Rightarrow> c) else v)"

fun paint_chars ::
  "string \<Rightarrow> int \<Rightarrow> int option list list \<Rightarrow> int \<Rightarrow> int \<Rightarrow> int \<Rightarrow> int \<Rightarrow> int \<Rightarrow> bool \<Rightarrow> screen
   \<Rightarrow> error + screen" where
  "paint_chars [] i colour_map x y colour attr bg transparent s = Inr s"
| "paint_chars (c # cs) i colour_map x y colour attr bg transparent s =
     (case getitem colour_map i of
        Inl e \<Rightarrow> Inl e
      | Inr m \<Rightarrow>
          let colour' = override m 0 colour;
              attr' = override m 1 attr;
              bg' = override m 2 bg
          in (case print_at [c] (x + i) y colour' attr' bg' transparent s of
                Inl e \<Rightarrow> Inl e
              | Inr s' \<Rightarrow> paint_chars cs (i + 1) colour_map x y colour' attr' bg' transparent s'))"

definition paint ::
  "string \<Rightarrow> int \<Rightarrow> int \<Rightarrow> int \<Rightarrow> int \<Rightarrow> int \<Rightarrow> bool \<Rightarrow> int option list list option \<Rightarrow> screen
   \<Rightarrow> error + screen" where
  "paint text x y colour attr bg transparent colour_map s =
     (case colour_map of
        None \<Rightarrow> print_at text x y colour attr bg transparent s
      | Some cm \<Rightarrow> paint_chars text 0 cm x y colour attr bg transparent s)"

definition centre ::
  "string \<Rightarrow> int \<Rightarrow> int \<Rightarrow> int \<Rightarrow> int option list list option \<Rightarrow> screen \<Rightarrow> error + screen" where
  "centre text y colour attr colour_map s =
     (let x = (width s - int (length text)) div 2
      in paint text x y colour attr 0 False colour_map s)"

text \<open>
  \<^verbatim>\<open>putch\<close> calls itself with the arguments it was given and does nothing else. Every call
  of a Python function takes a frame of the interpreter's stack, and a call that is made when
  the recursion limit is reached raises \<^verbatim>\<open>RecursionError\<close> (a \<^verbatim>\<open>RuntimeError\<close>, which is what
  Python 2 raises) instead of running the function. \<open>frames\<close> is the number of calls that the
  interpreter still allows when \<^verbatim>\<open>putch\<close> is called: the recursion limit less the depth of the
  caller. The result is the outcome of the call and the screen as the call leaves it.
\<close>

fun putch ::
  "nat \<Rightarrow> string \<Rightarrow> int \<Rightarrow> int \<Rightarrow> int \<Rightarrow> int \<Rightarrow> int \<Rightarrow> bool \<Rightarrow> screen \<Rightarrow>
     (error + unit) \<times> screen" where
  "putch frames text x y colour attr bg transparent s =
     (if frames = 0 then (Inl RecursionError, s)
      else putch (frames - 1) text x y colour attr bg transparent s)"

declare putch.simps [simp del]

subsection \<open>\<^verbatim>\<open>Screen\<close>: move and draw\<close>

text \<open>
  Coordinates are integers here, for which \<^verbatim>\<open>int(round(x, 1))\<close> is \<open>x\<close>.
\<close>

definition move :: "int \<Rightarrow> int \<Rightarrow> screen \<Rightarrow> screen" where
  "move x y s = s\<lparr>cur_x := Some (x * 2), cur_y := Some (y * 2)\<rparr>"

text \<open>
  The state of the inner \<^verbatim>\<open>for\<close> loops of \<^verbatim>\<open>draw\<close>:
  \<^verbatim>\<open>(next_chars[0], next_chars[1], x, y, err)\<close>. \<open>x_step\<close> is the body of
  \<^verbatim>\<open>for ix in x_range\<close> and \<open>y_step\<close> the body of \<^verbatim>\<open>for iy in y_range\<close>.
\<close>

type_synonym pen = "int \<times> int \<times> int \<times> int \<times> int"

definition step_range :: "int \<Rightarrow> int list" where
  "step_range d = (if d > 0 then [0, 1] else [1, 0])"

definition x_step :: "int \<Rightarrow> int \<Rightarrow> int \<Rightarrow> int \<Rightarrow> bool \<Rightarrow> int \<Rightarrow> int \<Rightarrow> pen \<Rightarrow> pen" where
  "x_step sx sy dx dy thin py ix p =
     (case p of (n0, n1, x, y, err) \<Rightarrow>
        let (a0, a1) =
              (if y \<ge> py \<and> y - py < 2
               then (n0 OR 2 ^ nat ix * 4 ^ nat (y mod 2), n1)
               else (n0, n1 OR 2 ^ nat ix * 4 ^ nat (y mod 2)));
            (b0, b1) =
              (if \<not> thin then
                 (if y + sy \<ge> py \<and> y + sy - py < 2
                  then (a0 OR 2 ^ nat ix * 4 ^ nat ((y + sy) mod 2), a1)
                  else (a0, a1 OR 2 ^ nat ix * 4 ^ nat ((y + sy) mod 2)))
               else (a0, a1));
            err1 = err - 2 * dy;
            (y1, err2) = (if err1 < 0 then (y + sy, err1 + 2 * dx) else (y, err1))
        in (b0, b1, x + sx, y1, err2))"

definition y_step :: "int \<Rightarrow> int \<Rightarrow> int \<Rightarrow> int \<Rightarrow> bool \<Rightarrow> int \<Rightarrow> int \<Rightarrow> pen \<Rightarrow> pen" where
  "y_step sx sy dx dy thin px iy p =
     (case p of (n0, n1, x, y, err) \<Rightarrow>
        let (a0, a1) =
              (if x \<ge> px \<and> x - px < 2
               then (n0 OR 2 ^ nat (x mod 2) * 4 ^ nat iy, n1)
               else (n0, n1 OR 2 ^ nat (x mod 2) * 4 ^ nat iy));
            (b0, b1) =
              (if \<not> thin then
                 (if x + sx \<ge> px \<and> x + sx - px < 2
                  then (a0 OR 2 ^ nat ((x + sx) mod 2) * 4 ^ nat iy, a1)
                  else (a0, a1 OR 2 ^ nat ((x + sx) mod 2) * 4 ^ nat iy))
               else (a0, a1));
            err1 = err - 2 * dx;
            (x1, err2) = (if err1 < 0 then (x + sx, err1 + 2 * dy) else (x, err1))
        in (b0, b1, x1, y + sy, err2))"

text \<open>
  What an iteration of the \<^verbatim>\<open>while\<close> loop prints once the inner loop is done: the primary
  cell is \<open>(cx, cy)\<close> and the secondary one \<open>(cx2, cy2)\<close>.
\<close>

definition plot ::
  "string option \<Rightarrow> int \<Rightarrow> int \<Rightarrow> int \<Rightarrow> int \<Rightarrow> int \<Rightarrow> int \<Rightarrow> int \<Rightarrow> int \<Rightarrow> screen \<Rightarrow> error + screen" where
  "plot char colour bg n0 n1 cx cy cx2 cy2 s =
     (case char of
        None \<Rightarrow>
          (case getitem line_chars n0 of
             Inl e \<Rightarrow> Inl e
           | Inr c0 \<Rightarrow>
               (case print_at [c0] cx cy colour 0 bg False s of
                  Inl e \<Rightarrow> Inl e
                | Inr s1 \<Rightarrow>
                    if n1 \<noteq> 0 then
                      (case getitem line_chars n1 of
                         Inl e \<Rightarrow> Inl e
                       | Inr c1 \<Rightarrow> print_at [c1] cx2 cy2 colour 0 bg False s1)
                    else Inr s1))
      | Some c \<Rightarrow>
          if c = '' '' then
            (case print_at c cx cy 7 0 bg False s of
               Inl e \<Rightarrow> Inl e
             | Inr s1 \<Rightarrow> print_at c cx2 cy2 7 0 bg False s1)
          else print_at c cx cy colour 0 bg False s)"

text \<open>
  A \<^verbatim>\<open>while\<close> loop over the loop variables \<open>a\<close> whose body may raise. A loop that never
  meets its exit test does not return: the function is partial and \<open>None\<close> is a loop that
  runs forever.
\<close>

partial_function (option) while_loop ::
  "('a \<Rightarrow> bool) \<Rightarrow> ('a \<Rightarrow> error + 'a) \<Rightarrow> 'a \<Rightarrow> (error + 'a) option" where
  "while_loop cond body a =
     (if cond a then
        (case body a of
           Inl e \<Rightarrow> Some (Inl e)
         | Inr a' \<Rightarrow> while_loop cond body a')
      else Some (Inr a))"

declare while_loop.simps [code]

text \<open>
  The bodies of \<^verbatim>\<open>while x != x1\<close> and \<^verbatim>\<open>while y != y1\<close>; the loop variables are
  \<open>(x, y, err)\<close> and the screen. Each iteration moves the major coordinate by two steps of
  \<open>sx\<close> (or \<open>sy\<close>).
\<close>

type_synonym line_state = "int \<times> int \<times> int \<times> screen"

definition draw_x_body ::
  "int \<Rightarrow> int \<Rightarrow> int \<Rightarrow> int \<Rightarrow> bool \<Rightarrow> string option \<Rightarrow> int \<Rightarrow> int \<Rightarrow> line_state
   \<Rightarrow> error + line_state" where
  "draw_x_body sx sy dx dy thin char colour bg a =
     (case a of (x, y, err, s) \<Rightarrow>
        let px = x AND NOT 1;
            py = y AND NOT 1
        in (case fold (x_step sx sy dx dy thin py) (step_range sx) (0, 0, x, y, err) of
              (n0, n1, x', y', err') \<Rightarrow>
                (case plot char colour bg n0 n1 (px div 2) (py div 2) (px div 2) (py div 2 + sy) s of
                   Inl e \<Rightarrow> Inl e
                 | Inr s' \<Rightarrow> Inr (x', y', err', s'))))"

definition draw_y_body ::
  "int \<Rightarrow> int \<Rightarrow> int \<Rightarrow> int \<Rightarrow> bool \<Rightarrow> string option \<Rightarrow> int \<Rightarrow> int \<Rightarrow> line_state
   \<Rightarrow> error + line_state" where
  "draw_y_body sx sy dx dy thin char colour bg a =
     (case a of (x, y, err, s) \<Rightarrow>
        let px = x AND NOT 1;
            py = y AND NOT 1
        in (case fold (y_step sx sy dx dy thin px) (step_range sy) (0, 0, x, y, err) of
              (n0, n1, x', y', err') \<Rightarrow>
                (case plot char colour bg n0 n1 (px div 2) (py div 2) (px div 2 + sx) (py div 2) s of
                   Inl e \<Rightarrow> Inl e
                 | Inr s' \<Rightarrow> Inr (x', y', err', s'))))"

text \<open>
  \<^verbatim>\<open>draw\<close>: subtracting the cursor raises TypeError while the cursor is \<^verbatim>\<open>None\<close>, as it
  is after the construction of a buffered screen and after \<^verbatim>\<open>_reset\<close>.
\<close>

definition screen_of :: "(error + line_state) option \<Rightarrow> (error + screen) option" where
  "screen_of r =
     (case r of
        None \<Rightarrow> None
      | Some (Inl e) \<Rightarrow> Some (Inl e)
      | Some (Inr (x, y, err, s)) \<Rightarrow> Some (Inr s))"

definition draw ::
  "int \<Rightarrow> int \<Rightarrow> string option \<Rightarrow> int \<Rightarrow> int \<Rightarrow> bool \<Rightarrow> screen \<Rightarrow> (error + screen) option" where
  "draw x y char colour bg thin s0 =
     (let x1 = x * 2;
          y1 = y * 2;
          s = s0\<lparr>cur_x := Some x1, cur_y := Some y1\<rparr>
      in case cur_x s0 of
           None \<Rightarrow> Some (Inl TypeError)
         | Some x0 \<Rightarrow>
             (case cur_y s0 of
                None \<Rightarrow> Some (Inl TypeError)
              | Some y0 \<Rightarrow>
                  let dx = abs (x1 - x0);
                      dy = abs (y1 - y0);
                      sx = (if x0 > x1 then - 1 else 1);
                      sy = (if y0 > y1 then - 1 else 1)
                  in if dx > dy
                     then screen_of
                            (while_loop (\<lambda>(x, y, err, s'). x \<noteq> x1)
                               (draw_x_body sx sy dx dy thin char colour bg) (x0, y0, dx, s))
                     else screen_of
                            (while_loop (\<lambda>(x, y, err, s'). y \<noteq> y1)
                               (draw_y_body sx sy dx dy thin char colour bg) (x0, y0, dy, s))))"

subsection \<open>Resizing\<close>

text \<open>
  The curses and blessed screens own a flag that the SIGWINCH handler sets; the Windows screen
  compares the console window with the one it saw at the previous call. \<open>resize_handler\<close> is
  the signal handler and \<open>window_resized\<close> is the user giving the console window a new
  rectangle. \<open>has_resized\<close> answers the method's result and the new state.
\<close>

definition resize_handler :: "screen \<Rightarrow> screen" where
  "resize_handler s = s\<lparr>re_sized := True\<rparr>"

definition window_resized :: "int \<times> int \<times> int \<times> int \<Rightarrow> screen \<Rightarrow> screen" where
  "window_resized win s = s\<lparr>window := win\<rparr>"

text \<open>
  One resize of the terminal to the rectangle \<open>win\<close>, as the screen object meets it: the
  console window changes on Windows, the signal handler runs on the other two.
\<close>

definition resize_event :: "int \<times> int \<times> int \<times> int \<Rightarrow> screen \<Rightarrow> screen" where
  "resize_event win s =
     (case backend s of Windows \<Rightarrow> window_resized win s | _ \<Rightarrow> resize_handler s)"

definition has_resized :: "screen \<Rightarrow> bool \<times> screen" where
  "has_resized s =
     (case backend s of
        Windows \<Rightarrow>
          let w = window_width (window s);
              h = window_height (window s);
              re = (last_width s \<noteq> None \<and> (Some w \<noteq> last_width s \<or> Some h \<noteq> last_height s))
          in (re, s\<lparr>last_width := Some w, last_height := Some h\<rparr>)
      | _ \<Rightarrow> (re_sized s, s\<lparr>re_sized := False\<rparr>))"

subsection \<open>Palettes\<close>

definition palette_8 :: "int list" where
  "palette_8 =
    [0x00, 0x00, 0x00,
     0x80, 0x00, 0x00,
     0x00, 0x80, 0x00,
     0x80, 0x80, 0x00,
     0x00, 0x00, 0x80,
     0x80, 0x00, 0x80,
     0x00, 0x80, 0x80,
     0xc0, 0xc0, 0xc0] @ map (\<lambda>_. 0x00) (py_range (248 * 3))"

text \<open>The 256 colours of \<^verbatim>\<open>_256_palette\<close>, sixteen colours to a definition.\<close>

definition palette_256_00 :: "int list" where
  "palette_256_00 =
    [0x00, 0x00, 0x00, 0x80, 0x00, 0x00, 0x00, 0x80, 0x00, 0x80, 0x80, 0x00,
     0x00, 0x00, 0x80, 0x80, 0x00, 0x80, 0x00, 0x80, 0x80, 0xc0, 0xc0, 0xc0,
     0x80, 0x80, 0x80, 0xff, 0x00, 0x00, 0x00, 0xff, 0x00, 0xff, 0xff, 0x00,
     0x00, 0x00, 0xff, 0xff, 0x00, 0xff, 0x00, 0xff, 0xff, 0xff, 0xff, 0xff]"

definition palette_256_01 :: "int list" where
  "palette_256_01 =
    [0x00, 0x00, 0x00, 0x00, 0x00, 0x5f, 0x00, 0x00, 0x87, 0x00, 0x00, 0xaf,
     0x00, 0x00, 0xd7, 0x00, 0x00, 0xff, 0x00, 0x5f, 0x00, 0x00, 0x5f, 0x5f,
     0x00, 0x5f, 0x87, 0x00, 0x5f, 0xaf, 0x00, 0x5f, 0xd7, 0x00, 0x5f, 0xff,
     0x00, 0x87, 0x00, 0x00, 0x87, 0x5f, 0x00, 0x87, 0x87, 0x00, 0x87, 0xaf]"

definition palette_256_02 :: "int list" where
  "palette_256_02 =
    [0x00, 0x87, 0xd7, 0x00, 0x87, 0xff, 0x00, 0xaf, 0x00, 0x00, 0xaf, 0x5f,
     0x00, 0xaf, 0x87, 0x00, 0xaf, 0xaf, 0x00, 0xaf, 0xd7, 0x00, 0xaf, 0xff,
     0x00, 0xd7, 0x00, 0x00, 0xd7, 0x5f, 0x00, 0xd7, 0x87, 0x00, 0xd7, 0xaf,
     0x00, 0xd7, 0xd7, 0x00, 0xd7, 0xff, 0x00, 0xff, 0x00, 0x00, 0xff, 0x5f]"

definition palette_256_03 :: "int list" where
  "palette_256_03 =
    [0x00, 0xff, 0x87, 0x00, 0xff, 0xaf, 0x00, 0xff, 0xd7, 0x00, 0xff, 0xff,
     0x5f, 0x00, 0x00, 0x5f, 0x00, 0x5f, 0x5f, 0x00, 0x87, 0x5f, 0x00, 0xaf,
     0x5f, 0x00, 0xd7, 0x5f, 0x00, 0xff, 0x5f, 0x5f, 0x00, 0x5f, 0x5f, 0x5f,
     0x5f, 0x5f, 0x87, 0x5f, 0x5f, 0xaf, 0x5f, 0x5f, 0xd7, 0x5f, 0x5f, 0xff]"

definition palette_256_04 :: "int list" where
  "palette_256_04 =
    [0x5f, 0x87, 0x00, 0x5f, 0x87, 0x5f, 0x5f, 0x87, 0x87, 0x5f, 0x87, 0xaf,
     0x5f, 0x87, 0xd7, 0x5f, 0x87, 0xff, 0x5f, 0xaf, 0x00, 0x5f, 0xaf, 0x5f,
     0x5f, 0xaf, 0x87, 0x5f, 0xaf, 0xaf, 0x5f, 0xaf, 0xd7, 0x5f, 0xaf, 0xff,
     0x5f, 0xd7, 0x00, 0x5f, 0xd7, 0x5f, 0x5f, 0xd7, 0x87, 0x5f, 0xd7, 0xaf]"

definition palette_256_05 :: "int list" where
  "palette_256_05 =
    [0x5f, 0xd7, 0xd7, 0x5f, 0xd7, 0xff, 0x5f, 0xff, 0x00, 0x5f, 0xff, 0x5f,
     0x5f, 0xff, 0x87, 0x5f, 0xff, 0xaf, 0x5f, 0xff, 0xd7, 0x5f, 0xff, 0xff,
     0x87, 0x00, 0x00, 0x87, 0x00, 0x5f, 0x87, 0x00, 0x87, 0x87, 0x00, 0xaf,
     0x87, 0x00, 0xd7, 0x87, 0x00, 0xff, 0x87, 0x5f, 0x00, 0x87, 0x5f, 0x5f]"

definition palette_256_06 :: "int list" where
  "palette_256_06 =
    [0x87, 0x5f, 0x87, 0x87, 0x5f, 0xaf, 0x87, 0x5f, 0xd7, 0x87, 0x5f, 0xff,
     0x87, 0x87, 0x00, 0x87, 0x87, 0x5f, 0x87, 0x87, 0x87, 0x87, 0x87, 0xaf,
     0x87, 0x87, 0xd7, 0x87, 0x87, 0xff, 0x87, 0xaf, 0x00, 0x87, 0xaf, 0x5f,
     0x87, 0xaf, 0x87, 0x87, 0xaf, 0xaf, 0x87, 0xaf, 0xd7, 0x87, 0xaf, 0xff]"

definition palette_256_07 :: "int list" where
  "palette_256_07 =
    [0x87, 0xd7, 0x00, 0x87, 0xd7, 0x5f, 0x87, 0xd7, 0x87, 0x87, 0xd7, 0xaf,
     0x87, 0xd7, 0xd7, 0x87, 0xd7, 0xff, 0x87, 0xff, 0x00, 0x87, 0xff, 0x5f,
     0x87, 0xff, 0x87, 0x87, 0xff, 0xaf, 0x87, 0xff, 0xd7, 0x87, 0xff, 0xff,
     0xaf, 0x00, 0x00, 0xaf, 0x00, 0x5f, 0xaf, 0x00, 0x87, 0xaf, 0x00, 0xaf]"

definition palette_256_08 :: "int list" where
  "palette_256_08 =
    [0xaf, 0x00, 0xd7, 0xaf, 0x00, 0xff, 0xaf, 0x5f, 0x00, 0xaf, 0x5f, 0x5f,
     0xaf, 0x5f, 0x87, 0xaf, 0x5f, 0xaf, 0xaf, 0x5f, 0xd7, 0xaf, 0x5f, 0xff,
     0xaf, 0x87, 0x00, 0xaf, 0x87, 0x5f, 0xaf, 0x87, 0x87, 0xaf, 0x87, 0xaf,
     0xaf, 0x87, 0xd7, 0xaf, 0x87, 0xff, 0xaf, 0xaf, 0x00, 0xaf, 0xaf, 0x5f]"

definition palette_256_09 :: "int list" where
  "palette_256_09 =
    [0xaf, 0xaf, 0x87, 0xaf, 0xaf, 0xaf, 0xaf, 0xaf, 0xd7, 0xaf, 0xaf, 0xff,
     0xaf, 0xd7, 0x00, 0xaf, 0xd7, 0x5f, 0xaf, 0xd7, 0x87, 0xaf, 0xd7, 0xaf,
     0xaf, 0xd7, 0xd7, 0xaf, 0xd7, 0xff, 0xaf, 0xff, 0x00, 0xaf, 0xff, 0x5f,
     0xaf, 0xff, 0x87, 0xaf, 0xff, 0xaf, 0xaf, 0xff, 0xd7, 0xaf, 0xff, 0xff]"

definition palette_256_10 :: "int list" where
  "palette_256_10 =
    [0xd7, 0x00, 0x00, 0xd7, 0x00, 0x5f, 0xd7, 0x00, 0x87, 0xd7, 0x00, 0xaf,
     0xd7, 0x00, 0xd7, 0xd7, 0x00, 0xff, 0xd7, 0x5f, 0x00, 0xd7, 0x5f, 0x5f,
     0xd7, 0x5f, 0x87, 0xd7, 0x5f, 0xaf, 0xd7, 0x5f, 0xd7, 0xd7, 0x5f, 0xff,
     0xd7, 0x87, 0x00, 0xd7, 0x87, 0x5f, 0xd7, 0x87, 0x87, 0xd7, 0x87, 0xaf]"

definition palette_256_11 :: "int list" where
  "palette_256_11 =
    [0xd7, 0x87, 0xd7, 0xd7, 0x87, 0xff, 0xd7, 0xaf, 0x00, 0xd7, 0xaf, 0x5f,
     0xd7, 0xaf, 0x87, 0xd7, 0xaf, 0xaf, 0xd7, 0xaf, 0xd7, 0xd7, 0xaf, 0xff,
     0xd7, 0xd7, 0x00, 0xd7, 0xd7, 0x5f, 0xd7, 0xd7, 0x87, 0xd7, 0xd7, 0xaf,
     0xd7, 0xd7, 0xd7, 0xd7, 0xd7, 0xff, 0xd7, 0xff, 0x00, 0xd7, 0xff, 0x5f]"

definition palette_256_12 :: "int list" where
  "palette_256_12 =
    [0xd7, 0xff, 0x87, 0xd7, 0xff, 0xaf, 0xd7, 0xff, 0xd7, 0xd7, 0xff, 0xff,
     0xff, 0x00, 0x00, 0xff, 0x00, 0x5f, 0xff, 0x00, 0x87, 0xff, 0x00, 0xaf,
     0xff, 0x00, 0xd7, 0xff, 0x00, 0xff, 0xff, 0x5f, 0x00, 0xff, 0x5f, 0x5f,
     0xff, 0x5f, 0x87, 0xff, 0x5f, 0xaf, 0xff, 0x5f, 0xd7, 0xff, 0x5f, 0xff]"

definition palette_256_13 :: "int list" where
  "palette_256_13 =
    [0xff, 0x87, 0x00, 0xff, 0x87, 0x5f, 0xff, 0x87, 0x87, 0xff, 0x87, 0xaf,
     0xff, 0x87, 0xd7, 0xff, 0x87, 0xff, 0xff, 0xaf, 0x00, 0xff, 0xaf, 0x5f,
     0xff, 0xaf, 0x87, 0xff, 0xaf, 0xaf, 0xff, 0xaf, 0xd7, 0xff, 0xaf, 0xff,
     0xff, 0xd7, 0x00, 0xff, 0xd7, 0x5f, 0xff, 0xd7, 0x87, 0xff, 0xd7, 0xaf]"

definition palette_256_14 :: "int list" where
  "palette_256_14 =
    [0xff, 0xd7, 0xd7, 0xff, 0xd7, 0xff, 0xff, 0xff, 0x00, 0xff, 0xff, 0x5f,
     0xff, 0xff, 0x87, 0xff, 0xff, 0xaf, 0xff, 0xff, 0xd7, 0xff, 0xff, 0xff,
     0x08, 0x08, 0x08, 0x12, 0x12, 0x12, 0x1c, 0x1c, 0x1c, 0x26, 0x26, 0x26,
     0x30, 0x30, 0x30, 0x3a, 0x3a, 0x3a, 0x44, 0x44, 0x44, 0x4e, 0x4e, 0x4e]"

definition palette_256_15 :: "int list" where
  "palette_256_15 =
    [0x58, 0x58, 0x58, 0x62, 0x62, 0x62, 0x6c, 0x6c, 0x6c, 0x76, 0x76, 0x76,
     0x80, 0x80, 0x80, 0x8a, 0x8a, 0x8a, 0x94, 0x94, 0x94, 0x9e, 0x9e, 0x9e,
     0xa8, 0xa8, 0xa8, 0xb2, 0xb2, 0xb2, 0xbc, 0xbc, 0xbc, 0xc6, 0xc6, 0xc6,
     0xd0, 0xd0, 0xd0, 0xda, 0xda, 0xda, 0xe4, 0xe4, 0xe4, 0xee, 0xee, 0xee]"

definition palette_256 :: "int list" where
  "palette_256 =
     palette_256_00 @ palette_256_01 @ palette_256_02 @ palette_256_03 @
     palette_256_04 @ palette_256_05 @ palette_256_06 @ palette_256_07 @
     palette_256_08 @ palette_256_09 @ palette_256_10 @ palette_256_11 @
     palette_256_12 @ palette_256_13 @ palette_256_14 @ palette_256_15"

definition palette :: "screen \<Rightarrow> int list" where
  "palette s = (if colours s < 256 then palette_8 else palette_256)"

section \<open>Notions of the specification\<close>

subsection \<open>The invariant of the buffers\<close>

text \<open>
  Both buffers have \<open>buffer_height\<close> rows of \<open>width\<close> cells, every row is a live object of
  the store, and no row object occurs twice, neither inside a buffer nor in both
  (\<^verbatim>\<open>_reset\<close> builds the second buffer as a deep copy). The window never starts above the
  buffer.
\<close>

definition screen_ok :: "screen \<Rightarrow> bool" where
  "screen_ok s \<longleftrightarrow>
     length (screen_buffer s) = nat (buffer_height s) \<and>
     length (double_buffer s) = nat (buffer_height s) \<and>
     distinct (screen_buffer s @ double_buffer s) \<and>
     (\<forall>a \<in> set (screen_buffer s @ double_buffer s).
        a < length (heap s) \<and> length (heap s ! a) = nat (width s)) \<and>
     0 \<le> start_line s"

text \<open>The cell of row \<open>y\<close> and column \<open>x\<close> in the committed and in the pending buffer.\<close>

definition committed :: "screen \<Rightarrow> nat \<Rightarrow> nat \<Rightarrow> cell" where
  "committed s y x = heap s ! (screen_buffer s ! y) ! x"

definition pending :: "screen \<Rightarrow> nat \<Rightarrow> nat \<Rightarrow> cell" where
  "pending s y x = heap s ! (double_buffer s ! y) ! x"

subsection \<open>Sequences of drawing calls\<close>

text \<open>
  The drawing calls of the public interface as data, and a program that makes one call after
  the other: it stops at the first call that raises, and it does not return when a call does
  not.
\<close>

datatype drawing_call =
    Call_print_at string int int int int int bool
  | Call_paint string int int int int int bool "int option list list option"
  | Call_centre string int int int "int option list list option"
  | Call_move int int
  | Call_draw int int "string option" int int bool

fun run_call :: "drawing_call \<Rightarrow> screen \<Rightarrow> (error + screen) option" where
  "run_call (Call_print_at text x y colour attr bg transparent) s =
     Some (print_at text x y colour attr bg transparent s)"
| "run_call (Call_paint text x y colour attr bg transparent colour_map) s =
     Some (paint text x y colour attr bg transparent colour_map s)"
| "run_call (Call_centre text y colour attr colour_map) s =
     Some (centre text y colour attr colour_map s)"
| "run_call (Call_move x y) s = Some (Inr (move x y s))"
| "run_call (Call_draw x y char colour bg thin) s = draw x y char colour bg thin s"

fun run_calls :: "drawing_call list \<Rightarrow> screen \<Rightarrow> (error + screen) option" where
  "run_calls [] s = Some (Inr s)"
| "run_calls (c # cs) s =
     (case run_call c s of
        None \<Rightarrow> None
      | Some (Inl e) \<Rightarrow> Some (Inl e)
      | Some (Inr s') \<Rightarrow> run_calls cs s')"

subsection \<open>Relations between two states\<close>

text \<open>
  \<open>rows_changed A s s'\<close>: from \<open>s\<close> to \<open>s'\<close> the geometry, the window position and the two
  lists of row addresses stay, every row object keeps its length, and only row objects at the
  addresses in \<open>A\<close> may have got new contents.
\<close>

definition rows_changed :: "nat set \<Rightarrow> screen \<Rightarrow> screen \<Rightarrow> bool" where
  "rows_changed A s s' \<longleftrightarrow>
     backend s' = backend s \<and> height s' = height s \<and> width s' = width s \<and>
     buffer_height s' = buffer_height s \<and> start_line s' = start_line s \<and>
     last_start_line s' = last_start_line s \<and>
     screen_buffer s' = screen_buffer s \<and> double_buffer s' = double_buffer s \<and>
     map length (heap s') = map length (heap s) \<and>
     (\<forall>a. a \<notin> A \<longrightarrow> heap s' ! a = heap s ! a)"

text \<open>
  \<open>geometry_same\<close>: the sizes, the window position and the two lists of row addresses are
  the same in both states; \<open>buffers_same\<close>: and so is the store of rows.
\<close>

definition geometry_same :: "screen \<Rightarrow> screen \<Rightarrow> bool" where
  "geometry_same s s' \<longleftrightarrow>
     screen_buffer s' = screen_buffer s \<and> double_buffer s' = double_buffer s \<and>
     backend s' = backend s \<and> height s' = height s \<and> width s' = width s \<and>
     buffer_height s' = buffer_height s \<and> start_line s' = start_line s \<and>
     last_start_line s' = last_start_line s"

definition buffers_same :: "screen \<Rightarrow> screen \<Rightarrow> bool" where
  "buffers_same s s' \<longleftrightarrow> geometry_same s s' \<and> heap s' = heap s"

text \<open>
  \<open>synced s y x\<close>: the committed and the pending buffer hold the same cell at row \<open>y\<close>,
  column \<open>x\<close>. \<open>refreshing R s t\<close> is what the loops of \<^verbatim>\<open>refresh\<close> keep true from their
  start \<open>s\<close> on: the pending buffer is not touched, a cell that was in step stays in step,
  the committed buffer changes in the rows \<open>R\<close> only, and the backend is not asked to scroll.
\<close>

definition synced :: "screen \<Rightarrow> nat \<Rightarrow> nat \<Rightarrow> bool" where
  "synced s y x \<longleftrightarrow> committed s y x = pending s y x"

definition refreshing :: "nat set \<Rightarrow> screen \<Rightarrow> screen \<Rightarrow> bool" where
  "refreshing R s t \<longleftrightarrow>
     screen_ok t \<and> geometry_same s t \<and>
     (\<forall>y < nat (buffer_height s). \<forall>x. pending t y x = pending s y x) \<and>
     (\<forall>y < nat (buffer_height s). \<forall>x. synced s y x \<longrightarrow> synced t y x) \<and>
     (\<forall>y < nat (buffer_height s). \<forall>x. y \<notin> R \<longrightarrow> committed t y x = committed s y x) \<and>
     (\<exists>calls. device t = device s @ calls \<and> Scroll \<notin> set calls)"

text \<open>
  \<open>accepts be cell\<close>: the \<^verbatim>\<open>_change_colours\<close> of the backend \<open>be\<close> finds the colours and the
  attribute of the cell in its dictionaries.
\<close>

definition accepts :: "backend \<Rightarrow> cell \<Rightarrow> bool" where
  "accepts be cell =
     (case cell of (c, colour, attr, bg) \<Rightarrow>
        (case be of
           Windows \<Rightarrow> attr \<in> set (ATTRIBUTES_keys Windows) \<and> colour \<in> set COLOURS_keys \<and>
             bg \<in> set COLOURS_keys
         | _ \<Rightarrow> attr = 0 \<or> attr \<in> set (ATTRIBUTES_keys be)))"

subsection \<open>Reachable states\<close>

text \<open>
  A state is reachable when a constructor made it or a method that returned, or a resize of
  the terminal, led to it from a reachable state.
\<close>

inductive reachable :: "screen \<Rightarrow> bool" where
  reach_windows: "reachable (WindowsScreen_init win bh)"
| reach_curses: "reachable (CursesScreen_init h w bh n)"
| reach_blessed: "reachable (BlessedScreen_init h w bh n)"
| reach_scroll: "reachable s \<Longrightarrow> reachable (scroll s)"
| reach_clear: "reachable s \<Longrightarrow> clear s = Inr s' \<Longrightarrow> reachable s'"
| reach_refresh: "reachable s \<Longrightarrow> refresh s = Inr s' \<Longrightarrow> reachable s'"
| reach_drawing: "reachable s \<Longrightarrow> run_call c s = Some (Inr s') \<Longrightarrow> reachable s'"
| reach_has_resized: "reachable s \<Longrightarrow> reachable (snd (has_resized s))"
| reach_resize_event: "reachable s \<Longrightarrow> reachable (resize_event win s)"

section \<open>Construction establishes the invariant\<close>

lemma reset_fields [simp]:
  "backend (reset s) = backend s" "height (reset s) = height s" "width (reset s) = width s"
  "colours (reset s) = colours s" "buffer_height (reset s) = buffer_height s"
  "cur_colour (reset s) = cur_colour s" "cur_attr (reset s) = cur_attr s"
  "cur_bg (reset s) = cur_bg s" "last_width (reset s) = last_width s"
  "last_height (reset s) = last_height s" "map_all (reset s) = map_all s"
  "re_sized (reset s) = re_sized s" "window (reset s) = window s" "device (reset s) = device s"
  "start_line (reset s) = 0" "last_start_line (reset s) = 0"
  "cur_x (reset s) = None" "cur_y (reset s) = None"
  by (simp_all add: reset_def Let_def split: prod.splits)

lemma map_nth_appended: "map ((!) (h @ rs)) [length h..<length h + length rs] = rs"
  by (rule nth_equalityI) (simp_all add: nth_append)

lemma reset_buffers:
  "screen_buffer (reset s) = [length (heap s)..<length (heap s) + nat (buffer_height s)]"
  "double_buffer (reset s) =
     [length (heap s) + nat (buffer_height s)..<
        length (heap s) + nat (buffer_height s) + nat (buffer_height s)]"
  "heap (reset s) =
     heap s @ replicate (nat (buffer_height s) + nat (buffer_height s))
       (replicate (nat (width s)) (CHR '' '', 7, 0, 0))"
  by (simp_all add: reset_def Let_def deepcopy_def alloc_rows_def py_range_def
      map_replicate_const map_nth_appended [where rs = "replicate n r" for n r, simplified]
      replicate_add split: prod.splits)

text \<open>
  \<^verbatim>\<open>_reset\<close> establishes the invariant from any state: the rows of the two new buffers are
  fresh and pairwise different objects.
\<close>

lemma screen_ok_reset: "screen_ok (reset s)"
  by (auto simp: screen_ok_def reset_buffers nth_append)

lemma BufferedScreen_init_ok: "screen_ok (BufferedScreen_init be h w bh win)"
  by (simp add: BufferedScreen_init_def screen_ok_reset)

lemma WindowsScreen_init_fields [simp]:
  "backend (WindowsScreen_init win bh) = Windows"
  "colours (WindowsScreen_init win bh) = 8"
  "last_width (WindowsScreen_init win bh) = None"
  "window (WindowsScreen_init win bh) = win"
  by (simp_all add: WindowsScreen_init_def BufferedScreen_init_def)

lemma CursesScreen_init_fields [simp]:
  "backend (CursesScreen_init h w bh n) = Curses"
  "colours (CursesScreen_init h w bh n) = n"
  "re_sized (CursesScreen_init h w bh n) = False"
  "height (CursesScreen_init h w bh n) = h"
  "width (CursesScreen_init h w bh n) = w"
  "buffer_height (CursesScreen_init h w bh n) = bh"
  "start_line (CursesScreen_init h w bh n) = 0"
  "last_start_line (CursesScreen_init h w bh n) = 0"
  "device (CursesScreen_init h w bh n) = []"
  by (simp_all add: CursesScreen_init_def BufferedScreen_init_def)

lemma screen_ok_cong:
  "screen_buffer s' = screen_buffer s \<Longrightarrow> double_buffer s' = double_buffer s \<Longrightarrow>
   buffer_height s' = buffer_height s \<Longrightarrow> width s' = width s \<Longrightarrow> heap s' = heap s \<Longrightarrow>
   start_line s' = start_line s \<Longrightarrow> screen_ok s' = screen_ok s"
  by (simp add: screen_ok_def)

lemma WindowsScreen_init_ok: "screen_ok (WindowsScreen_init win bh)"
  unfolding WindowsScreen_init_def
  by (subst screen_ok_cong [where s = "BufferedScreen_init Windows (window_height win)
        (window_width win) bh win"]) (simp_all add: BufferedScreen_init_ok)

lemma CursesScreen_init_ok: "screen_ok (CursesScreen_init h w bh n)"
  unfolding CursesScreen_init_def
  by (subst screen_ok_cong [where s = "BufferedScreen_init Curses h w bh (0, 0, w - 1, h - 1)"])
    (simp_all add: BufferedScreen_init_ok)

lemma BlessedScreen_init_ok: "screen_ok (BlessedScreen_init h w bh n)"
  unfolding BlessedScreen_init_def
  by (subst screen_ok_cong [where s = "BufferedScreen_init Blessed h w bh (0, 0, w - 1, h - 1)"])
    (simp_all add: BufferedScreen_init_ok)

section \<open>The palette\<close>

lemma length_palette_8: "length palette_8 = 768"
  by (simp add: palette_8_def py_range_def)

lemma length_palette_256: "length palette_256 = 768"
  by (simp add: palette_256_def palette_256_00_def palette_256_01_def palette_256_02_def
      palette_256_03_def palette_256_04_def palette_256_05_def palette_256_06_def
      palette_256_07_def palette_256_08_def palette_256_09_def palette_256_10_def
      palette_256_11_def palette_256_12_def palette_256_13_def palette_256_14_def
      palette_256_15_def)

text \<open>
  Claim C6, as amended. The palette is a flat sequence of 768 bytes (256 RGB triples) at every
  colour depth. Below 256 colours it is \<^verbatim>\<open>_8_palette\<close>, whose 8 triples are followed by
  \<open>248 * 3\<close> zero bytes; from 256 colours on it is \<^verbatim>\<open>_256_palette\<close>.
\<close>

theorem palette_length:
  "length (palette s) = 768 \<and>
   (if colours s < 256 then drop 24 (palette s) = replicate 744 0 else palette s = palette_256)"
  by (simp add: palette_def length_palette_8 length_palette_256)
    (simp add: palette_8_def py_range_def map_replicate_const)

theorem palette_length_witness:
  "length (palette (WindowsScreen_init (0, 0, 79, 24) 200)) = 768 \<and>
   drop 24 (palette (WindowsScreen_init (0, 0, 79, 24) 200)) = replicate 744 0"
  using palette_length [of "WindowsScreen_init (0, 0, 79, 24) 200"] by simp

text \<open>
  Claim C6 as stated asks for 24 bytes below 256 colours. The Windows screen has 8 colours and
  its palette is not 24 bytes long.
\<close>

theorem palette_length_counterexample:
  "colours (WindowsScreen_init (0, 0, 79, 24) 200) < 256 \<and>
   length (palette (WindowsScreen_init (0, 0, 79, 24) 200)) \<noteq> 24"
  by (simp add: palette_def length_palette_8)

section \<open>Resizing\<close>

text \<open>
  Claim C7, as amended. On every backend the call of \<^verbatim>\<open>has_resized()\<close> that follows the first
  call after a resize answers false, and so does the second of any two calls with no resize
  between them. On the curses and blessed screens the first call after a resize answers true.
  On the Windows screen it does so when an earlier call has recorded the size of the window
  (\<open>last_width\<close> and \<open>last_height\<close> hold the size before the resize) and the resize changes the
  width or the height.
\<close>

theorem has_resized_edge:
  "\<not> fst (has_resized (snd (has_resized (resize_event win s)))) \<and>
   \<not> fst (has_resized (snd (has_resized s))) \<and>
   ((backend s = Windows \<longrightarrow>
       last_width s = Some (window_width (window s)) \<and>
       last_height s = Some (window_height (window s)) \<and>
       (window_width win \<noteq> window_width (window s) \<or>
        window_height win \<noteq> window_height (window s))) \<longrightarrow>
    fst (has_resized (resize_event win s)))"
  by (cases "backend s")
    (auto simp: has_resized_def resize_event_def window_resized_def resize_handler_def Let_def)

text \<open>
  The witness: a Windows console of 80 by 25 whose size has been polled once and which is then
  resized to 100 by 30. The first call after the resize answers true, the next one false.
\<close>

theorem has_resized_edge_witness:
  "fst (has_resized (resize_event (0, 0, 99, 29)
          (snd (has_resized (WindowsScreen_init (0, 0, 79, 24) 200))))) \<and>
   \<not> fst (has_resized (snd (has_resized (resize_event (0, 0, 99, 29)
          (snd (has_resized (WindowsScreen_init (0, 0, 79, 24) 200)))))))"
  using has_resized_edge [of "(0, 0, 99, 29)"
      "snd (has_resized (WindowsScreen_init (0, 0, 79, 24) 200))"]
  by (simp add: has_resized_def Let_def)

text \<open>
  Claim C7 as stated fails on Windows: a console of 80 by 25 that is resized to 100 by 30
  before \<^verbatim>\<open>has_resized()\<close> was ever called answers false at the first call, because
  \<^verbatim>\<open>_last_width\<close> is still \<^verbatim>\<open>None\<close>.
\<close>

theorem has_resized_counterexample:
  "window_width (0, 0, 99, 29) \<noteq> window_width (window (WindowsScreen_init (0, 0, 79, 24) 200)) \<and>
   \<not> fst (has_resized (resize_event (0, 0, 99, 29) (WindowsScreen_init (0, 0, 79, 24) 200)))"
  by (simp add: has_resized_def resize_event_def window_resized_def Let_def)

section \<open>putch\<close>

text \<open>
  Claim C9, as amended. Every call of \<^verbatim>\<open>putch\<close> calls \<^verbatim>\<open>putch\<close> again with the same
  arguments and nothing else, so no call returns normally: whatever the arguments, the screen
  and the number of calls that the interpreter still allows, the call ends with
  \<^verbatim>\<open>RecursionError\<close>, and it leaves the screen as it found it: nothing is drawn, \<^verbatim>\<open>print_at\<close>
  is never reached.
\<close>

theorem putch_raises_recursion_error:
  "putch frames text x y colour attr bg transparent s = (Inl RecursionError, s)"
proof (induction frames)
  case 0
  show ?case
    by (subst putch.simps) simp
next
  case (Suc frames)
  show ?case
    by (subst putch.simps) (simp add: Suc.IH)
qed

text \<open>
  Claim C9 as stated says that the call never terminates. It does: with the recursion limit
  of 1000 that CPython starts with, \<^verbatim>\<open>putch("x", 0, 0)\<close> on a fresh screen ends after a thousand
  nested calls, with \<^verbatim>\<open>RecursionError\<close>.
\<close>

theorem putch_terminates_counterexample:
  "fst (putch 1000 ''x'' 0 0 7 0 0 False (CursesScreen_init 2 5 4 8)) = Inl RecursionError"
  by code_simp

section \<open>Indexing and the frame of a buffer write\<close>

lemma getitem_nonneg: "0 \<le> i \<Longrightarrow> getitem xs i = (if i < int (length xs) then Inr (xs ! nat i) else Inl IndexError)"
  by (simp add: getitem_def)

lemma setitem_nonneg: "0 \<le> i \<Longrightarrow> setitem xs i v = (if i < int (length xs) then Inr (xs[nat i := v]) else Inl IndexError)"
  by (simp add: setitem_def)

lemma getitem_Inr_mem: "getitem xs i = Inr v \<Longrightarrow> v \<in> set xs"
  by (auto simp: getitem_def split: if_splits)

lemma setitem_Inr_length: "setitem xs i v = Inr ys \<Longrightarrow> length ys = length xs"
  by (auto simp: setitem_def split: if_splits)

lemma rows_changed_refl: "rows_changed A s s"
  by (simp add: rows_changed_def)

lemma rows_changed_trans:
  "rows_changed A s t \<Longrightarrow> rows_changed A t u \<Longrightarrow> rows_changed A s u"
  by (simp add: rows_changed_def)

lemma rows_changed_mono: "rows_changed A s t \<Longrightarrow> A \<subseteq> B \<Longrightarrow> rows_changed B s t"
  unfolding rows_changed_def by blast

lemma map_length_nth:
  assumes "map length h' = map length h" "a < length h"
  shows "length (h' ! a) = length (h ! a)"
proof -
  have "length h' = length h" using assms(1) by (rule map_eq_imp_length_eq)
  then have "map length h' ! a = length (h' ! a)" "map length h ! a = length (h ! a)"
    using assms(2) by simp_all
  then show ?thesis using assms(1) by simp
qed

lemma rows_changed_ok:
  assumes "screen_ok s" "rows_changed A s s'"
  shows "screen_ok s'"
proof -
  have len: "length (heap s') = length (heap s)"
    using assms(2) unfolding rows_changed_def by (blast intro: map_eq_imp_length_eq)
  have rows: "\<And>a. a < length (heap s) \<Longrightarrow> length (heap s' ! a) = length (heap s ! a)"
    using assms(2) unfolding rows_changed_def by (blast intro: map_length_nth)
  have eqs: "screen_buffer s' = screen_buffer s" "double_buffer s' = double_buffer s"
    "buffer_height s' = buffer_height s" "width s' = width s" "start_line s' = start_line s"
    using assms(2) unfolding rows_changed_def by simp_all
  show ?thesis
    using assms(1) unfolding screen_ok_def eqs len by (simp add: rows)
qed

lemma map_length_update:
  assumes "length row = length (h ! a)"
  shows "map length (h[a := row]) = map length h"
proof (cases "a < length h")
  case True
  then show ?thesis using assms by (simp add: map_update list_update_same_conv)
next
  case False
  then have "h[a := row] = h" by (intro list_update_beyond) simp
  then show ?thesis by simp
qed

lemma store_cell_rows:
  assumes "store_cell buf y x v s = Inr s'"
  shows "rows_changed (set buf) s s'"
proof -
  from assms obtain a row where a: "getitem buf y = Inr a"
    and row: "setitem (heap s ! a) x v = Inr row"
    and s': "s' = s\<lparr>heap := (heap s)[a := row]\<rparr>"
    by (auto simp: store_cell_def split: sum.splits)
  have mem: "a \<in> set buf" using a by (rule getitem_Inr_mem)
  have "length row = length (heap s ! a)" using row by (rule setitem_Inr_length)
  then have len: "map length ((heap s)[a := row]) = map length (heap s)"
    by (rule map_length_update)
  have other: "\<And>b. b \<notin> set buf \<Longrightarrow> (heap s)[a := row] ! b = heap s ! b"
    using mem by (metis nth_list_update_neq)
  show ?thesis
    unfolding rows_changed_def s' using len other by simp
qed

lemma store_cell_device: "store_cell buf y x v s = Inr s' \<Longrightarrow> device s' = device s"
  by (auto simp: store_cell_def split: sum.splits)

section \<open>Drawing calls change rows of the pending buffer only\<close>

lemma print_chars_rows:
  "print_chars cs i x y colour attr bg transparent s = Inr s' \<Longrightarrow>
   rows_changed (set (double_buffer s)) s s' \<and> device s' = device s"
proof (induction cs arbitrary: i s)
  case Nil
  then show ?case by (simp add: rows_changed_refl)
next
  case (Cons c cs)
  show ?case
  proof (cases "c \<noteq> CHR '' '' \<or> \<not> transparent")
    case True
    with Cons.prems obtain s1 where
      s1: "store_cell (double_buffer s) y (x + i) (c, colour, attr, bg) s = Inr s1"
      and rest: "print_chars cs (i + 1) x y colour attr bg transparent s1 = Inr s'"
      by (auto split: sum.splits)
    have r1: "rows_changed (set (double_buffer s)) s s1" using s1 by (rule store_cell_rows)
    then have db: "double_buffer s1 = double_buffer s" by (simp add: rows_changed_def)
    have "rows_changed (set (double_buffer s)) s1 s' \<and> device s' = device s1"
      using Cons.IH [OF rest] db by simp
    then show ?thesis
      using r1 store_cell_device [OF s1] by (auto intro: rows_changed_trans)
  next
    case False
    with Cons.prems have "print_chars cs (i + 1) x y colour attr bg transparent s = Inr s'"
      by auto
    then show ?thesis by (rule Cons.IH)
  qed
qed

lemma print_at_rows:
  "print_at text x y colour attr bg transparent s = Inr s' \<Longrightarrow>
   rows_changed (set (double_buffer s)) s s' \<and> device s' = device s"
  by (auto simp: print_at_def Let_def rows_changed_refl dest: print_chars_rows split: if_splits)

lemma paint_chars_rows:
  "paint_chars cs i cm x y colour attr bg transparent s = Inr s' \<Longrightarrow>
   rows_changed (set (double_buffer s)) s s' \<and> device s' = device s"
proof (induction cs arbitrary: i colour attr bg s)
  case Nil
  then show ?case by (simp add: rows_changed_refl)
next
  case (Cons c cs)
  from Cons.prems obtain m s1 where m: "getitem cm i = Inr m"
    and s1: "print_at [c] (x + i) y (override m 0 colour) (override m 1 attr) (override m 2 bg)
               transparent s = Inr s1"
    and rest: "paint_chars cs (i + 1) cm x y (override m 0 colour) (override m 1 attr)
               (override m 2 bg) transparent s1 = Inr s'"
    by (auto simp: Let_def split: sum.splits)
  have r1: "rows_changed (set (double_buffer s)) s s1 \<and> device s1 = device s"
    using s1 by (rule print_at_rows)
  then have db: "double_buffer s1 = double_buffer s" by (simp add: rows_changed_def)
  have "rows_changed (set (double_buffer s)) s1 s' \<and> device s' = device s1"
    using Cons.IH [OF rest] db by simp
  then show ?case using r1 by (auto intro: rows_changed_trans)
qed

lemma paint_rows:
  "paint text x y colour attr bg transparent colour_map s = Inr s' \<Longrightarrow>
   rows_changed (set (double_buffer s)) s s' \<and> device s' = device s"
  by (auto simp: paint_def dest: print_at_rows paint_chars_rows split: option.splits)

lemma centre_rows:
  "centre text y colour attr colour_map s = Inr s' \<Longrightarrow>
   rows_changed (set (double_buffer s)) s s' \<and> device s' = device s"
  unfolding centre_def Let_def by (rule paint_rows)

lemma print_at_twice_rows:
  assumes "print_at t1 x1 y1 c1 a1 b1 tr1 s = Inr s1" "print_at t2 x2 y2 c2 a2 b2 tr2 s1 = Inr s'"
  shows "rows_changed (set (double_buffer s)) s s' \<and> device s' = device s"
proof -
  have r1: "rows_changed (set (double_buffer s)) s s1 \<and> device s1 = device s"
    using assms(1) by (rule print_at_rows)
  then have db: "double_buffer s1 = double_buffer s" by (simp add: rows_changed_def)
  have "rows_changed (set (double_buffer s)) s1 s' \<and> device s' = device s1"
    using print_at_rows [OF assms(2)] db by simp
  then show ?thesis using r1 by (auto intro: rows_changed_trans)
qed

lemma plot_rows:
  assumes "plot char colour bg n0 n1 cx cy cx2 cy2 s = Inr s'"
  shows "rows_changed (set (double_buffer s)) s s' \<and> device s' = device s"
  using assms unfolding plot_def
  by (auto split: option.splits sum.splits if_splits
      dest: print_at_rows print_at_twice_rows [THEN conjunct1]
        print_at_twice_rows [THEN conjunct2])

lemma draw_x_body_rows:
  assumes "draw_x_body sx sy dx dy thin char colour bg (x, y, err, s) = Inr (x', y', err', s')"
  shows "rows_changed (set (double_buffer s)) s s' \<and> device s' = device s"
  using assms unfolding draw_x_body_def Let_def
  by (auto split: prod.splits sum.splits dest: plot_rows)

lemma draw_y_body_rows:
  assumes "draw_y_body sx sy dx dy thin char colour bg (x, y, err, s) = Inr (x', y', err', s')"
  shows "rows_changed (set (double_buffer s)) s s' \<and> device s' = device s"
  using assms unfolding draw_y_body_def Let_def
  by (auto split: prod.splits sum.splits dest: plot_rows)

text \<open>
  A loop that returns has kept every invariant of its body, and has met its exit test.
\<close>

lemma while_loop_rule:
  assumes run: "while_loop cond body a = Some (Inr a')"
    and start: "I a"
    and step: "\<And>b b'. I b \<Longrightarrow> cond b \<Longrightarrow> body b = Inr b' \<Longrightarrow> I b'"
  shows "I a' \<and> \<not> cond a'"
proof -
  define P where "P = (\<lambda>(c :: 'a \<Rightarrow> bool) (f :: 'a \<Rightarrow> error + 'a) (b :: 'a) (r :: error + 'a).
      c = cond \<longrightarrow> f = body \<longrightarrow> I b \<longrightarrow> (\<forall>b'. r = Inr b' \<longrightarrow> I b' \<and> \<not> cond b'))"
  have "P cond body a (Inr a')"
  proof (rule while_loop.raw_induct [where P = P, OF _ run])
    fix loop :: "('a \<Rightarrow> bool) \<Rightarrow> ('a \<Rightarrow> error + 'a) \<Rightarrow> 'a \<Rightarrow> (error + 'a) option"
    fix c f b r
    assume IH: "\<And>c f b r. loop c f b = Some r \<Longrightarrow> P c f b r"
    assume eq: "(if c b then case f b of Inl e \<Rightarrow> Some (Inl e) | Inr b' \<Rightarrow> loop c f b'
                 else Some (Inr b)) = Some r"
    show "P c f b r"
    proof (cases "c b")
      case True
      show ?thesis
      proof (cases "f b")
        case (Inl e)
        with True eq show ?thesis by (auto simp: P_def)
      next
        case (Inr b1)
        with True eq have "loop c f b1 = Some r" by simp
        then have "P c f b1 r" by (rule IH)
        then show ?thesis
          unfolding P_def using Inr True step by blast
      qed
    next
      case False
      with eq show ?thesis by (auto simp: P_def)
    qed
  qed
  then show ?thesis using start by (simp add: P_def)
qed

lemma draw_rows:
  assumes "draw x y char colour bg thin s0 = Some (Inr s')"
  shows "rows_changed (set (double_buffer s0)) s0 s' \<and> device s' = device s0"
proof -
  define s where "s = s0\<lparr>cur_x := Some (x * 2), cur_y := Some (y * 2)\<rparr>"
  define I where "I = (\<lambda>a :: line_state. case a of (x, y, err, t) \<Rightarrow>
      rows_changed (set (double_buffer s0)) s0 t \<and> device t = device s0)"
  have start: "I (x0, y0, e, s)" for x0 y0 e
    by (simp add: I_def s_def rows_changed_def)
  have stepx: "I b \<Longrightarrow> draw_x_body sx sy dx dy thin char colour bg b = Inr b' \<Longrightarrow> I b'"
    for b b' sx sy dx dy
  proof -
    assume b: "I b" and run: "draw_x_body sx sy dx dy thin char colour bg b = Inr b'"
    obtain bx "by" be t where b_eq: "b = (bx, by, be, t)" by (cases b) auto
    obtain bx' by' be' t' where b'_eq: "b' = (bx', by', be', t')" by (cases b') auto
    have t: "rows_changed (set (double_buffer s0)) s0 t" "device t = device s0"
      using b by (simp_all add: I_def b_eq)
    then have db: "double_buffer t = double_buffer s0" by (simp add: rows_changed_def)
    have "rows_changed (set (double_buffer t)) t t' \<and> device t' = device t"
      using run unfolding b_eq b'_eq by (rule draw_x_body_rows)
    then show "I b'"
      using t db by (auto simp: I_def b'_eq intro: rows_changed_trans)
  qed
  have stepy: "I b \<Longrightarrow> draw_y_body sx sy dx dy thin char colour bg b = Inr b' \<Longrightarrow> I b'"
    for b b' sx sy dx dy
  proof -
    assume b: "I b" and run: "draw_y_body sx sy dx dy thin char colour bg b = Inr b'"
    obtain bx "by" be t where b_eq: "b = (bx, by, be, t)" by (cases b) auto
    obtain bx' by' be' t' where b'_eq: "b' = (bx', by', be', t')" by (cases b') auto
    have t: "rows_changed (set (double_buffer s0)) s0 t" "device t = device s0"
      using b by (simp_all add: I_def b_eq)
    then have db: "double_buffer t = double_buffer s0" by (simp add: rows_changed_def)
    have "rows_changed (set (double_buffer t)) t t' \<and> device t' = device t"
      using run unfolding b_eq b'_eq by (rule draw_y_body_rows)
    then show "I b'"
      using t db by (auto simp: I_def b'_eq intro: rows_changed_trans)
  qed
  have loop: "I a'" if "while_loop c (draw_x_body sx sy dx dy thin char colour bg) (x0, y0, e, s)
        = Some (Inr a') \<or> while_loop c (draw_y_body sx sy dx dy thin char colour bg) (x0, y0, e, s)
        = Some (Inr a')" for c sx sy dx dy x0 y0 e a'
    using that
  proof
    assume "while_loop c (draw_x_body sx sy dx dy thin char colour bg) (x0, y0, e, s) = Some (Inr a')"
    from while_loop_rule [where I = I, OF this start] stepx show ?thesis by blast
  next
    assume "while_loop c (draw_y_body sx sy dx dy thin char colour bg) (x0, y0, e, s) = Some (Inr a')"
    from while_loop_rule [where I = I, OF this start] stepy show ?thesis by blast
  qed
  from assms obtain x0 where x0: "cur_x s0 = Some x0"
    by (cases "cur_x s0") (auto simp: draw_def Let_def)
  from assms x0 obtain y0 where y0: "cur_y s0 = Some y0"
    by (cases "cur_y s0") (auto simp: draw_def Let_def)
  define dx dy where "dx = abs (x * 2 - x0)" and "dy = abs (y * 2 - y0)"
  define sx sy :: int where "sx = (if x0 > x * 2 then - 1 else 1)"
    and "sy = (if y0 > y * 2 then - 1 else 1)"
  have unfolded: "draw x y char colour bg thin s0 =
      (if dx > dy
       then screen_of (while_loop (\<lambda>(x', y', err, t). x' \<noteq> x * 2)
                         (draw_x_body sx sy dx dy thin char colour bg) (x0, y0, dx, s))
       else screen_of (while_loop (\<lambda>(x', y', err, t). y' \<noteq> y * 2)
                         (draw_y_body sx sy dx dy thin char colour bg) (x0, y0, dy, s)))"
    unfolding draw_def Let_def x0 y0 dx_def dy_def sx_def sy_def s_def by simp
  have "\<exists>a'. I a' \<and> snd (snd (snd a')) = s'"
  proof (cases "dx > dy")
    case True
    with assms unfolded obtain a' where
      run: "while_loop (\<lambda>(x', y', err, t). x' \<noteq> x * 2)
              (draw_x_body sx sy dx dy thin char colour bg) (x0, y0, dx, s) = Some (Inr a')"
      and a': "snd (snd (snd a')) = s'"
      by (auto simp: screen_of_def split: option.splits sum.splits prod.splits)
    from loop [OF disjI1, OF run] a' show ?thesis by blast
  next
    case False
    with assms unfolded obtain a' where
      run: "while_loop (\<lambda>(x', y', err, t). y' \<noteq> y * 2)
              (draw_y_body sx sy dx dy thin char colour bg) (x0, y0, dy, s) = Some (Inr a')"
      and a': "snd (snd (snd a')) = s'"
      by (auto simp: screen_of_def split: option.splits sum.splits prod.splits)
    from loop [OF disjI2, OF run] a' show ?thesis by blast
  qed
  then show ?thesis
    by (auto simp: I_def split: prod.splits)
qed

section \<open>Drawing calls and the committed buffer\<close>

lemma run_call_rows:
  assumes "run_call c s = Some (Inr s')"
  shows "rows_changed (set (double_buffer s)) s s' \<and> device s' = device s"
proof (cases c)
  case (Call_move x y)
  with assms show ?thesis by (auto simp: move_def rows_changed_def)
qed (use assms in \<open>auto dest: print_at_rows paint_rows centre_rows draw_rows\<close>)

lemma run_calls_rows:
  "run_calls cs s = Some (Inr s') \<Longrightarrow>
   rows_changed (set (double_buffer s)) s s' \<and> device s' = device s"
proof (induction cs arbitrary: s)
  case Nil
  then show ?case by (simp add: rows_changed_refl)
next
  case (Cons c cs)
  from Cons.prems obtain s1 where s1: "run_call c s = Some (Inr s1)"
    and rest: "run_calls cs s1 = Some (Inr s')"
    by (auto split: option.splits sum.splits)
  have r1: "rows_changed (set (double_buffer s)) s s1 \<and> device s1 = device s"
    using s1 by (rule run_call_rows)
  then have db: "double_buffer s1 = double_buffer s" by (simp add: rows_changed_def)
  have "rows_changed (set (double_buffer s)) s1 s' \<and> device s' = device s1"
    using Cons.IH [OF rest] db by simp
  then show ?case using r1 by (auto intro: rows_changed_trans)
qed

lemma committed_row_kept:
  assumes "screen_ok s" "rows_changed (set (double_buffer s)) s s'" "a \<in> set (screen_buffer s)"
  shows "a \<notin> set (double_buffer s) \<and> heap s' ! a = heap s ! a"
proof -
  have "a \<notin> set (double_buffer s)"
    using assms(1,3) by (auto simp: screen_ok_def)
  then show ?thesis using assms(2) by (simp add: rows_changed_def)
qed

lemma get_from_rows:
  assumes "screen_ok s" "rows_changed (set (double_buffer s)) s s'"
  shows "get_from x y s' = get_from x y s"
proof -
  have sb: "screen_buffer s' = screen_buffer s" using assms(2) by (simp add: rows_changed_def)
  show ?thesis
  proof (cases "getitem (screen_buffer s) y")
    case (Inl e)
    then show ?thesis by (simp add: get_from_def load_cell_def sb)
  next
    case (Inr a)
    then have "a \<in> set (screen_buffer s)" by (rule getitem_Inr_mem)
    then have "heap s' ! a = heap s ! a"
      using committed_row_kept [OF assms] by simp
    then show ?thesis by (simp add: get_from_def load_cell_def sb Inr)
  qed
qed

text \<open>
  Claim C8. Let a sequence of drawing calls (\<^verbatim>\<open>print_at\<close>, \<^verbatim>\<open>paint\<close>, \<^verbatim>\<open>centre\<close>,
  \<^verbatim>\<open>move\<close>, \<^verbatim>\<open>draw\<close>) run to its end from a screen that satisfies the invariant, with no
  \<^verbatim>\<open>refresh\<close> or \<^verbatim>\<open>clear\<close> among them. Then \<^verbatim>\<open>get_from(x, y)\<close> answers what it answered
  before, at every coordinate; the committed buffer still consists of the same row objects,
  none of them is a row of the pending buffer, and none of them has changed; and no primitive
  of the backend has been called.
\<close>

theorem drawing_keeps_committed:
  assumes "screen_ok s" and "run_calls cs s = Some (Inr s')"
  shows "get_from x y s' = get_from x y s \<and>
         screen_buffer s' = screen_buffer s \<and>
         (\<forall>a \<in> set (screen_buffer s). a \<notin> set (double_buffer s) \<and> heap s' ! a = heap s ! a) \<and>
         device s' = device s"
proof -
  have r: "rows_changed (set (double_buffer s)) s s'" and d: "device s' = device s"
    using run_calls_rows [OF assms(2)] by simp_all
  show ?thesis
    using get_from_rows [OF assms(1) r] committed_row_kept [OF assms(1) r] d r
    by (simp add: rows_changed_def)
qed

text \<open>
  The witness: a move, a line and a text on a fresh curses screen of 2 by 5 with a buffer of 4
  rows. The pending buffer holds the line and the text, the committed one still reads blank.
\<close>

lemma drawing_example:
  "case run_calls [Call_move 0 0, Call_draw 3 0 (Some ''#'') 7 0 False,
       Call_print_at ''Hi'' 1 1 2 1 0 False] (CursesScreen_init 2 5 4 8) of
     Some (Inr s') \<Rightarrow>
       pending s' 0 0 = (CHR ''#'', 7, 0, 0) \<and> pending s' 1 2 = (CHR ''i'', 2, 1, 0)
   | _ \<Rightarrow> False"
  by code_simp

lemma fresh_screen_blank: "get_from 0 0 (CursesScreen_init 2 5 4 8) = Inr (32, 7, 0, 0)"
  by code_simp

theorem drawing_keeps_committed_witness:
  "case run_calls [Call_move 0 0, Call_draw 3 0 (Some ''#'') 7 0 False,
       Call_print_at ''Hi'' 1 1 2 1 0 False] (CursesScreen_init 2 5 4 8) of
     Some (Inr s') \<Rightarrow>
       pending s' 0 0 = (CHR ''#'', 7, 0, 0) \<and> get_from 0 0 s' = Inr (32, 7, 0, 0)
   | _ \<Rightarrow> False"
proof -
  obtain s' where run: "run_calls [Call_move 0 0, Call_draw 3 0 (Some ''#'') 7 0 False,
       Call_print_at ''Hi'' 1 1 2 1 0 False] (CursesScreen_init 2 5 4 8) = Some (Inr s')"
    and p: "pending s' 0 0 = (CHR ''#'', 7, 0, 0)"
    using drawing_example by (auto split: option.splits sum.splits)
  have "get_from 0 0 s' = Inr (32, 7, 0, 0)"
    using drawing_keeps_committed [OF CursesScreen_init_ok run, of 0 0] fresh_screen_blank
    by simp
  with run p show ?thesis by simp
qed

section \<open>Reading the committed buffer\<close>

lemma committed_row_length:
  "screen_ok s \<Longrightarrow> k < nat (buffer_height s) \<Longrightarrow>
   length (heap s ! (screen_buffer s ! k)) = nat (width s)"
  by (simp add: screen_ok_def)

lemma pending_row_length:
  "screen_ok s \<Longrightarrow> k < nat (buffer_height s) \<Longrightarrow>
   length (heap s ! (double_buffer s ! k)) = nat (width s)"
  by (simp add: screen_ok_def)

lemma getitem_cases:
  "getitem xs i =
     (if - int (length xs) \<le> i \<and> i < int (length xs)
      then Inr (xs ! nat (if i < 0 then i + int (length xs) else i))
      else Inl IndexError)"
  by (auto simp: getitem_def add.commute)

text \<open>
  Claim C10. \<^verbatim>\<open>get_from(x, y)\<close> indexes the committed buffer without a check: for \<open>y\<close> in
  \<open>[-buffer_height, buffer_height)\<close> and \<open>x\<close> in \<open>[-width, width)\<close> it answers the cell there,
  a negative coordinate counting from the end, and for any other coordinate it raises
  IndexError.
\<close>

theorem get_from_unchecked:
  assumes "screen_ok s"
  shows "get_from x y s =
     (if - buffer_height s \<le> y \<and> y < buffer_height s \<and> - width s \<le> x \<and> x < width s
      then (case committed s (nat (if y < 0 then y + buffer_height s else y))
                   (nat (if x < 0 then x + width s else x)) of
              (c, colour, attr, bg) \<Rightarrow> Inr (of_char c, colour, attr, bg))
      else Inl IndexError)"
proof (cases "- buffer_height s \<le> y \<and> y < buffer_height s")
  case False
  then have "getitem (screen_buffer s) y = Inl IndexError"
    using assms by (auto simp: getitem_cases screen_ok_def)
  moreover have "\<not> (- buffer_height s \<le> y \<and> y < buffer_height s \<and> - width s \<le> x \<and> x < width s)"
    using False by blast
  ultimately show ?thesis
    unfolding get_from_def load_cell_def by (simp only: if_False sum.case)
next
  case True
  define k where "k = nat (if y < 0 then y + buffer_height s else y)"
  have len: "int (length (screen_buffer s)) = buffer_height s"
    using assms True by (auto simp: screen_ok_def)
  have k: "k < nat (buffer_height s)" using True by (auto simp: k_def)
  have row: "getitem (screen_buffer s) y = Inr (screen_buffer s ! k)"
    using True by (simp add: getitem_cases len k_def)
  have rl: "int (length (heap s ! (screen_buffer s ! k))) = (if 0 \<le> width s then width s else 0)"
    using committed_row_length [OF assms k] by simp
  show ?thesis
  proof (cases "- width s \<le> x \<and> x < width s")
    case False
    then have "getitem (heap s ! (screen_buffer s ! k)) x = Inl IndexError"
      by (auto simp: getitem_cases rl)
    moreover have "\<not> (- buffer_height s \<le> y \<and> y < buffer_height s \<and> - width s \<le> x \<and> x < width s)"
      using False by blast
    ultimately show ?thesis
      unfolding get_from_def load_cell_def row by (simp only: if_False sum.case)
  next
    case inx: True
    then have "getitem (heap s ! (screen_buffer s ! k)) x =
        Inr (heap s ! (screen_buffer s ! k) ! nat (if x < 0 then x + width s else x))"
      by (auto simp: getitem_cases rl)
    moreover have "- buffer_height s \<le> y \<and> y < buffer_height s \<and> - width s \<le> x \<and> x < width s"
      using inx True by blast
    ultimately show ?thesis
      unfolding get_from_def load_cell_def row committed_def k_def
      by (simp only: if_True sum.case) (simp split: prod.splits)
  qed
qed

text \<open>
  The witness: on a fresh curses screen of 2 by 5 with a buffer of 4 rows, \<open>(-1, -4)\<close> reads
  the last cell of row 0, and \<open>(5, 0)\<close> and \<open>(0, -5)\<close> raise.
\<close>

theorem get_from_unchecked_witness:
  "get_from (- 1) (- 4) (CursesScreen_init 2 5 4 8) = Inr (32, 7, 0, 0) \<and>
   get_from 5 0 (CursesScreen_init 2 5 4 8) = Inl IndexError \<and>
   get_from 0 (- 5) (CursesScreen_init 2 5 4 8) = Inl IndexError"
proof -
  have c: "committed (CursesScreen_init 2 5 4 8) 0 4 = (CHR '' '', 7, 0, 0)"
    by code_simp
  show ?thesis
    using get_from_unchecked [where s = "CursesScreen_init 2 5 4 8" and x = "- 1" and y = "- 4",
        OF CursesScreen_init_ok]
      get_from_unchecked [where s = "CursesScreen_init 2 5 4 8" and x = 5 and y = 0,
        OF CursesScreen_init_ok]
      get_from_unchecked [where s = "CursesScreen_init 2 5 4 8" and x = 0 and y = "- 5",
        OF CursesScreen_init_ok] c
    by simp
qed

section \<open>Text that starts right of the screen\<close>

text \<open>
  Claim C3 fails on the code. When \<open>x\<close> is greater than \<open>width\<close>, the bound of the slice
  \<^verbatim>\<open>text[:self.width - x]\<close> is negative and counts from the end of the text: for a text
  longer than \<open>x - width\<close> the slice is not empty, and the first assignment to
  \<^verbatim>\<open>self._double_buffer[y][x + i]\<close> raises IndexError. On a screen of width 10,
  \<^verbatim>\<open>print_at("HELLO", 12, 0)\<close> keeps \<^verbatim>\<open>"HEL"\<close> and raises.
\<close>

theorem print_at_right_of_screen_raises:
  "slice_to ''HELLO'' (width (CursesScreen_init 5 10 5 8) - 12) = ''HEL'' \<and>
   print_at ''HELLO'' 12 0 7 0 0 False (CursesScreen_init 5 10 5 8) = Inl IndexError"
  by code_simp

section \<open>Loops that may raise\<close>

lemma for_each_invariant:
  assumes "for_each f xs s = Inr s'" and "J s"
    and "\<And>x t t'. x \<in> set xs \<Longrightarrow> J t \<Longrightarrow> f x t = Inr t' \<Longrightarrow> J t'"
  shows "J s'"
  using assms
proof (induction xs arbitrary: s)
  case Nil
  then show ?case by simp
next
  case (Cons x xs)
  from Cons.prems(1) obtain t where t: "f x s = Inr t" and rest: "for_each f xs t = Inr s'"
    by (auto split: sum.splits)
  have Jt: "J t" using Cons.prems(3) [OF _ Cons.prems(2) t] by simp
  show ?case
  proof (rule Cons.IH [OF rest Jt])
    fix z u u'
    assume "z \<in> set xs" "J u" "f z u = Inr u'"
    then show "J u'" using Cons.prems(3) [of z u u'] by simp
  qed
qed

lemma for_each_establish:
  assumes run: "for_each f xs s = Inr s'" and start: "I s"
    and step: "\<And>x t t'. x \<in> set xs \<Longrightarrow> I t \<Longrightarrow> f x t = Inr t' \<Longrightarrow> I t' \<and> Q x t'"
    and keep: "\<And>x z t t'. x \<in> set xs \<Longrightarrow> I t \<Longrightarrow> Q z t \<Longrightarrow> f x t = Inr t' \<Longrightarrow> Q z t'"
  shows "I s' \<and> (\<forall>x \<in> set xs. Q x s')"
proof -
  have I: "I s'"
    by (rule for_each_invariant [where J = I, OF run start]) (use step in blast)
  have "Q z s'" if z: "z \<in> set xs" for z
  proof -
    from z obtain ys zs where xs: "xs = ys @ z # zs" by (meson split_list)
    have app: "\<And>s s'. for_each f (ys @ z # zs) s = Inr s' \<Longrightarrow>
        \<exists>t u. for_each f ys s = Inr t \<and> f z t = Inr u \<and> for_each f zs u = Inr s'"
    proof (induction ys)
      case Nil
      then show ?case by (auto split: sum.splits)
    next
      case (Cons y ys)
      then show ?case by (auto split: sum.splits)
    qed
    from app [OF run [unfolded xs]] obtain t u where
      t: "for_each f ys s = Inr t" and u: "f z t = Inr u" and rest: "for_each f zs u = Inr s'"
      by blast
    have "I t"
      by (rule for_each_invariant [where J = I, OF t start]) (use step xs in auto)
    then have "I u \<and> Q z u" using step [OF z _ u] by simp
    have "I s' \<and> Q z s'"
    proof (rule for_each_invariant [where J = "\<lambda>v. I v \<and> Q z v", OF rest])
      show "I u \<and> Q z u" by fact
    next
      fix x v v'
      assume "x \<in> set zs" and v: "I v \<and> Q z v" and run': "f x v = Inr v'"
      then have x: "x \<in> set xs" by (simp add: xs)
      show "I v' \<and> Q z v'"
        using step [OF x _ run'] keep [OF x _ _ run'] v by blast
    qed
    then show ?thesis by simp
  qed
  with I show ?thesis by simp
qed

lemma for_each_completes:
  assumes "J s"
    and "\<And>x t. x \<in> set xs \<Longrightarrow> J t \<Longrightarrow> \<exists>t'. f x t = Inr t' \<and> J t'"
  shows "\<exists>s'. for_each f xs s = Inr s' \<and> J s'"
  using assms
proof (induction xs arbitrary: s)
  case Nil
  then show ?case by simp
next
  case (Cons x xs)
  from Cons.prems(2) [of x s] Cons.prems(1) obtain t where t: "f x s = Inr t" and Jt: "J t"
    by auto
  have "\<exists>s'. for_each f xs t = Inr s' \<and> J s'"
  proof (rule Cons.IH [OF Jt])
    fix z u
    assume "z \<in> set xs" "J u"
    then show "\<exists>u'. f z u = Inr u' \<and> J u'" using Cons.prems(2) [of z u] by simp
  qed
  then obtain s' where "for_each f xs t = Inr s'" "J s'" by auto
  with t show ?case by simp
qed

section \<open>Cells of the two buffers\<close>

lemma load_cell_committed:
  assumes "screen_ok s" "0 \<le> y" "0 \<le> x"
  shows "load_cell (screen_buffer s) y x s =
     (if y < buffer_height s \<and> x < width s then Inr (committed s (nat y) (nat x))
      else Inl IndexError)"
proof (cases "y < buffer_height s")
  case False
  then show ?thesis
    using assms by (simp add: load_cell_def getitem_nonneg screen_ok_def)
next
  case True
  then have k: "nat y < nat (buffer_height s)" using assms(2) by simp
  have "getitem (screen_buffer s) y = Inr (screen_buffer s ! nat y)"
    using assms True by (simp add: getitem_nonneg screen_ok_def)
  then show ?thesis
    using committed_row_length [OF assms(1) k] assms(3) True
    by (simp add: load_cell_def getitem_nonneg committed_def)
qed

lemma load_cell_pending:
  assumes "screen_ok s" "0 \<le> y" "0 \<le> x"
  shows "load_cell (double_buffer s) y x s =
     (if y < buffer_height s \<and> x < width s then Inr (pending s (nat y) (nat x))
      else Inl IndexError)"
proof (cases "y < buffer_height s")
  case False
  then show ?thesis
    using assms by (simp add: load_cell_def getitem_nonneg screen_ok_def)
next
  case True
  then have k: "nat y < nat (buffer_height s)" using assms(2) by simp
  have "getitem (double_buffer s) y = Inr (double_buffer s ! nat y)"
    using assms True by (simp add: getitem_nonneg screen_ok_def)
  then show ?thesis
    using pending_row_length [OF assms(1) k] assms(3) True
    by (simp add: load_cell_def getitem_nonneg pending_def)
qed

lemma store_cell_committed:
  assumes "screen_ok s" "0 \<le> y" "0 \<le> x" "y < buffer_height s" "x < width s"
  shows "store_cell (screen_buffer s) y x v s =
     Inr (s\<lparr>heap := (heap s)[screen_buffer s ! nat y :=
                (heap s ! (screen_buffer s ! nat y))[nat x := v]]\<rparr>)"
proof -
  have k: "nat y < nat (buffer_height s)" using assms(2,4) by simp
  have "getitem (screen_buffer s) y = Inr (screen_buffer s ! nat y)"
    using assms by (simp add: getitem_nonneg screen_ok_def)
  then show ?thesis
    using committed_row_length [OF assms(1) k] assms(3,5)
    by (simp add: store_cell_def setitem_nonneg)
qed

lemma store_cell_pending:
  assumes "screen_ok s" "0 \<le> y" "0 \<le> x" "y < buffer_height s" "x < width s"
  shows "store_cell (double_buffer s) y x v s =
     Inr (s\<lparr>heap := (heap s)[double_buffer s ! nat y :=
                (heap s ! (double_buffer s ! nat y))[nat x := v]]\<rparr>)"
proof -
  have k: "nat y < nat (buffer_height s)" using assms(2,4) by simp
  have "getitem (double_buffer s) y = Inr (double_buffer s ! nat y)"
    using assms by (simp add: getitem_nonneg screen_ok_def)
  then show ?thesis
    using pending_row_length [OF assms(1) k] assms(3,5)
    by (simp add: store_cell_def setitem_nonneg)
qed

text \<open>Rows of one buffer are different objects, and different from the rows of the other.\<close>

lemma committed_rows_distinct:
  "screen_ok s \<Longrightarrow> i < nat (buffer_height s) \<Longrightarrow> j < nat (buffer_height s) \<Longrightarrow>
   (screen_buffer s ! i = screen_buffer s ! j) = (i = j)"
  by (simp add: screen_ok_def nth_eq_iff_index_eq)

lemma pending_rows_distinct:
  "screen_ok s \<Longrightarrow> i < nat (buffer_height s) \<Longrightarrow> j < nat (buffer_height s) \<Longrightarrow>
   (double_buffer s ! i = double_buffer s ! j) = (i = j)"
  by (simp add: screen_ok_def nth_eq_iff_index_eq)

lemma buffers_disjoint:
  "screen_ok s \<Longrightarrow> i < nat (buffer_height s) \<Longrightarrow> j < nat (buffer_height s) \<Longrightarrow>
   screen_buffer s ! i \<noteq> double_buffer s ! j"
proof -
  assume ok: "screen_ok s" and i: "i < nat (buffer_height s)" and j: "j < nat (buffer_height s)"
  have "screen_buffer s ! i \<in> set (screen_buffer s)" "double_buffer s ! j \<in> set (double_buffer s)"
    using ok i j by (simp_all add: screen_ok_def)
  moreover have "set (screen_buffer s) \<inter> set (double_buffer s) = {}"
    using ok by (simp add: screen_ok_def)
  ultimately show ?thesis by (metis disjoint_iff)
qed

lemma row_in_heap:
  "screen_ok s \<Longrightarrow> i < nat (buffer_height s) \<Longrightarrow>
   screen_buffer s ! i < length (heap s) \<and> double_buffer s ! i < length (heap s)"
  by (simp add: screen_ok_def)

section \<open>The backend primitives leave the buffers alone\<close>

lemma prim_change_colours_same:
  assumes "prim_change_colours colour attr bg s = Inr s'"
  shows "buffers_same s s' \<and> (\<exists>calls. device s' = device s @ calls \<and> Scroll \<notin> set calls)"
proof (cases "backend s")
  case Windows
  with assms show ?thesis
    by (auto simp: prim_change_colours_def log_call_def buffers_same_def geometry_same_def Let_def
        split: if_splits)
next
  case Curses
  with assms show ?thesis
    by (auto simp: prim_change_colours_def log_call_def buffers_same_def geometry_same_def Let_def
        split: if_splits)
next
  case Blessed
  with assms show ?thesis
    by (auto simp: prim_change_colours_def log_call_def buffers_same_def geometry_same_def Let_def
        split: if_splits)
qed

lemma prim_print_at_same:
  "buffers_same s (prim_print_at text x y s) \<and>
   device (prim_print_at text x y s) = device s @ [Print_at text x y]"
  by (cases "backend s") (simp_all add: prim_print_at_def log_call_def buffers_same_def geometry_same_def Let_def)

lemma prim_scroll_same:
  "buffers_same s (prim_scroll s) \<and> device (prim_scroll s) = device s @ [Scroll]"
  by (simp add: prim_scroll_def log_call_def buffers_same_def geometry_same_def)

lemma buffers_same_ok: "buffers_same s s' \<Longrightarrow> screen_ok s' = screen_ok s"
  by (rule screen_ok_cong) (simp_all add: buffers_same_def geometry_same_def)

lemma buffers_same_trans: "buffers_same s t \<Longrightarrow> buffers_same t u \<Longrightarrow> buffers_same s u"
  by (simp add: buffers_same_def geometry_same_def)

lemma geometry_same_trans: "geometry_same s t \<Longrightarrow> geometry_same t u \<Longrightarrow> geometry_same s u"
  by (simp add: geometry_same_def)

section \<open>One step of refresh\<close>

lemma refresh_cell_effect:
  assumes ok: "screen_ok s" and y: "0 \<le> y" and x: "0 \<le> x"
    and run: "refresh_cell y x s = Inr s'"
  shows "y + start_line s < buffer_height s \<and> x < width s \<and>
     geometry_same s s' \<and>
     heap s' = (heap s)[screen_buffer s ! nat (y + start_line s) :=
        (heap s ! (screen_buffer s ! nat (y + start_line s)))
          [nat x := pending s (nat (y + start_line s)) (nat x)]] \<and>
     (\<exists>calls. device s' = device s @ calls \<and> Scroll \<notin> set calls)"
proof -
  define Y where "Y = nat (y + start_line s)"
  define a where "a = screen_buffer s ! Y"
  have ys: "0 \<le> y + start_line s" using ok y by (simp add: screen_ok_def)
  have in_range: "y + start_line s < buffer_height s \<and> x < width s"
    using run load_cell_pending [OF ok ys x]
    by (auto simp: refresh_cell_def split: sum.splits if_splits)
  then have new: "load_cell (double_buffer s) (y + start_line s) x s = Inr (pending s Y (nat x))"
    and old: "load_cell (screen_buffer s) (y + start_line s) x s = Inr (committed s Y (nat x))"
    using load_cell_pending [OF ok ys x] load_cell_committed [OF ok ys x] by (simp_all add: Y_def)
  show ?thesis
  proof (cases "committed s Y (nat x) = pending s Y (nat x)")
    case True
    then have "s' = s" using run by (simp add: refresh_cell_def new old)
    moreover have "(heap s ! a)[nat x := pending s Y (nat x)] = heap s ! a"
      using True [symmetric] by (simp add: committed_def a_def)
    then have "(heap s)[a := (heap s ! a)[nat x := pending s Y (nat x)]] = heap s"
      by simp
    ultimately show ?thesis
      using in_range by (simp add: geometry_same_def a_def Y_def)
  next
    case False
    define new_cell where "new_cell = pending s Y (nat x)"
    from run False obtain s1 where
      s1: "prim_change_colours (fst (snd new_cell)) (fst (snd (snd new_cell)))
             (snd (snd (snd new_cell))) s = Inr s1"
      and st: "store_cell (screen_buffer (prim_print_at [fst new_cell] x y s1))
             (y + start_line (prim_print_at [fst new_cell] x y s1)) x new_cell
             (prim_print_at [fst new_cell] x y s1) = Inr s'"
      by (auto simp: refresh_cell_def new old new_cell_def Let_def split: sum.splits)
    define s2 where "s2 = prim_print_at [fst new_cell] x y s1"
    have same1: "buffers_same s s1"
      and dev1: "\<exists>calls. device s1 = device s @ calls \<and> Scroll \<notin> set calls"
      using prim_change_colours_same [OF s1] by simp_all
    have same2: "buffers_same s s2"
      using same1 prim_print_at_same [of s1 "[fst new_cell]" x y]
      unfolding s2_def by (blast intro: buffers_same_trans)
    have dev2: "\<exists>calls. device s2 = device s @ calls \<and> Scroll \<notin> set calls"
    proof -
      from dev1 obtain calls where "device s1 = device s @ calls" "Scroll \<notin> set calls" by blast
      then have "device s2 = device s @ (calls @ [Print_at [fst new_cell] x y]) \<and>
          Scroll \<notin> set (calls @ [Print_at [fst new_cell] x y])"
        using prim_print_at_same [of s1 "[fst new_cell]" x y] by (simp add: s2_def)
      then show ?thesis by blast
    qed
    have ok2: "screen_ok s2" using buffers_same_ok [OF same2] ok by simp
    have eqs: "screen_buffer s2 = screen_buffer s" "start_line s2 = start_line s"
      "buffer_height s2 = buffer_height s" "width s2 = width s" "heap s2 = heap s"
      using same2 by (simp_all add: buffers_same_def geometry_same_def)
    have "store_cell (screen_buffer s2) (y + start_line s2) x new_cell s2 =
        Inr (s2\<lparr>heap := (heap s2)[screen_buffer s2 ! nat (y + start_line s2) :=
                (heap s2 ! (screen_buffer s2 ! nat (y + start_line s2)))[nat x := new_cell]]\<rparr>)"
      using in_range ys x by (intro store_cell_committed [OF ok2]) (simp_all add: eqs)
    with st have s': "s' = s2\<lparr>heap := (heap s)[a := (heap s ! a)[nat x := new_cell]]\<rparr>"
      by (simp add: s2_def eqs [unfolded s2_def] a_def Y_def)
    have "geometry_same s s'"
      using same2 by (simp add: s' buffers_same_def geometry_same_def)
    then show ?thesis
      using in_range dev2 by (simp add: s' a_def Y_def new_cell_def)
  qed
qed

section \<open>The loops of refresh\<close>

lemma refreshing_refl: "screen_ok s \<Longrightarrow> refreshing R s s"
  by (simp add: refreshing_def geometry_same_def)

lemma refreshing_trans:
  assumes "refreshing R s t" "refreshing R t u"
  shows "refreshing R s u"
proof -
  have bh: "buffer_height t = buffer_height s"
    using assms(1) by (simp add: refreshing_def geometry_same_def)
  from assms obtain c1 c2 where "device t = device s @ c1" "Scroll \<notin> set c1"
    "device u = device t @ c2" "Scroll \<notin> set c2"
    unfolding refreshing_def by blast
  then have "device u = device s @ (c1 @ c2) \<and> Scroll \<notin> set (c1 @ c2)" by simp
  then have dev: "\<exists>calls. device u = device s @ calls \<and> Scroll \<notin> set calls" by blast
  show ?thesis
    using assms dev unfolding refreshing_def bh
    by (auto intro: geometry_same_trans)
qed

lemma refreshing_mono: "refreshing R s t \<Longrightarrow> R \<subseteq> R' \<Longrightarrow> refreshing R' s t"
  unfolding refreshing_def by blast

lemma refresh_cell_refreshing:
  assumes ok: "screen_ok s" and y: "0 \<le> y" and x: "0 \<le> x"
    and run: "refresh_cell y x s = Inr s'"
  shows "refreshing {nat (y + start_line s)} s s' \<and>
     y + start_line s < buffer_height s \<and> x < width s \<and>
     synced s' (nat (y + start_line s)) (nat x)"
proof -
  define Y where "Y = nat (y + start_line s)"
  define X where "X = nat x"
  define a where "a = screen_buffer s ! Y"
  define v where "v = pending s Y X"
  have ys: "0 \<le> y + start_line s" using ok y by (simp add: screen_ok_def)
  from refresh_cell_effect [OF ok y x run]
  have in_range: "y + start_line s < buffer_height s" "x < width s"
    and geo: "geometry_same s s'"
    and heap': "heap s' = (heap s)[a := (heap s ! a)[X := v]]"
    and dev: "\<exists>calls. device s' = device s @ calls \<and> Scroll \<notin> set calls"
    by (simp_all add: Y_def X_def a_def v_def)
  have Y: "Y < nat (buffer_height s)" using in_range ys by (simp add: Y_def)
  have X: "X < nat (width s)" using in_range x by (simp add: X_def)
  have a_heap: "a < length (heap s)" using row_in_heap [OF ok Y] by (simp add: a_def)
  have a_len: "length (heap s ! a) = nat (width s)"
    using committed_row_length [OF ok Y] by (simp add: a_def)
  have sb: "screen_buffer s' = screen_buffer s" and db: "double_buffer s' = double_buffer s"
    using geo by (simp_all add: geometry_same_def)
  have rc: "rows_changed {a} s s'"
    using geo a_len by (auto simp: rows_changed_def geometry_same_def heap' map_length_update)
  have "a \<in> set (screen_buffer s)" using ok Y by (simp add: a_def screen_ok_def)
  then have ok': "screen_ok s'"
    using rows_changed_ok [OF ok rows_changed_mono [OF rc]] by simp
  have pend: "pending s' y' x' = pending s y' x'" if "y' < nat (buffer_height s)" for y' x'
    using buffers_disjoint [OF ok Y that] by (simp add: pending_def db heap' a_def)
  have comm: "committed s' y' x' = (if y' = Y \<and> x' = X then v else committed s y' x')"
    if "y' < nat (buffer_height s)" for y' x'
  proof (cases "y' = Y")
    case True
    then show ?thesis
      using a_heap a_len X by (simp add: committed_def sb heap' a_def [symmetric] nth_list_update)
  next
    case False
    then have "screen_buffer s ! y' \<noteq> a"
      using committed_rows_distinct [OF ok that Y] by (simp add: a_def)
    with False show ?thesis by (simp add: committed_def sb heap')
  qed
  have "synced s' Y X" using comm [OF Y] pend [OF Y] by (simp add: synced_def v_def)
  moreover have "refreshing {Y} s s'"
    unfolding refreshing_def using ok' geo dev pend comm
    by (auto simp: synced_def v_def)
  ultimately show ?thesis using in_range by (simp add: Y_def X_def)
qed

lemma mem_py_range: "x \<in> set (py_range n) \<longleftrightarrow> 0 \<le> x \<and> x < n"
  by (auto simp: py_range_def image_iff intro: bexI [where x = "nat x"])

lemma refresh_row:
  assumes ok: "screen_ok s" and y: "0 \<le> y"
    and run: "for_each (refresh_cell y) (py_range n) s = Inr s'"
  shows "refreshing {nat (y + start_line s)} s s' \<and>
     (\<forall>x \<in> set (py_range n). y + start_line s < buffer_height s \<and> x < width s \<and>
        synced s' (nat (y + start_line s)) (nat x))"
proof (rule for_each_establish [where I = "refreshing {nat (y + start_line s)} s", OF run])
  show "refreshing {nat (y + start_line s)} s s" using ok by (rule refreshing_refl)
next
  fix x t t'
  assume x: "x \<in> set (py_range n)" and t: "refreshing {nat (y + start_line s)} s t"
    and step: "refresh_cell y x t = Inr t'"
  have eqs: "start_line t = start_line s" "buffer_height t = buffer_height s" "width t = width s"
    and okt: "screen_ok t"
    using t by (simp_all add: refreshing_def geometry_same_def)
  have "0 \<le> x" using x by (simp add: mem_py_range)
  from refresh_cell_refreshing [OF okt y this step] t
  show "refreshing {nat (y + start_line s)} s t' \<and>
     (y + start_line s < buffer_height s \<and> x < width s \<and> synced t' (nat (y + start_line s)) (nat x))"
    unfolding eqs by (blast intro: refreshing_trans)
next
  fix x z t t'
  assume x: "x \<in> set (py_range n)" and t: "refreshing {nat (y + start_line s)} s t"
    and z: "y + start_line s < buffer_height s \<and> z < width s \<and> synced t (nat (y + start_line s)) (nat z)"
    and step: "refresh_cell y x t = Inr t'"
  have eqs: "start_line t = start_line s" "buffer_height t = buffer_height s" "width t = width s"
    and okt: "screen_ok t"
    using t by (simp_all add: refreshing_def geometry_same_def)
  have "0 \<le> x" using x by (simp add: mem_py_range)
  from refresh_cell_refreshing [OF okt y this step]
  have "refreshing {nat (y + start_line s)} t t'" by (simp add: eqs)
  moreover have "nat (y + start_line s) < nat (buffer_height t)"
    using z y ok by (simp add: eqs screen_ok_def)
  ultimately have "synced t' (nat (y + start_line s)) (nat z)"
    using z unfolding refreshing_def by blast
  with z show "y + start_line s < buffer_height s \<and> z < width s \<and>
      synced t' (nat (y + start_line s)) (nat z)" by simp
qed

lemma refresh_rows:
  assumes ok: "screen_ok s"
    and run: "for_each (\<lambda>y t. for_each (refresh_cell y) (py_range (width t)) t) (py_range h) s
        = Inr s'"
  shows "refreshing {r. start_line s \<le> int r \<and> int r < start_line s + h} s s' \<and>
     (\<forall>y \<in> set (py_range h). 0 \<le> y \<and> (\<forall>x \<in> set (py_range (width s)).
        y + start_line s < buffer_height s \<and> synced s' (nat (y + start_line s)) (nat x)))"
proof (rule for_each_establish
    [where I = "refreshing {r. start_line s \<le> int r \<and> int r < start_line s + h} s", OF run])
  show "refreshing {r. start_line s \<le> int r \<and> int r < start_line s + h} s s"
    using ok by (rule refreshing_refl)
next
  fix y t t'
  assume y: "y \<in> set (py_range h)"
    and t: "refreshing {r. start_line s \<le> int r \<and> int r < start_line s + h} s t"
    and step: "for_each (refresh_cell y) (py_range (width t)) t = Inr t'"
  have eqs: "start_line t = start_line s" "buffer_height t = buffer_height s" "width t = width s"
    and okt: "screen_ok t"
    using t by (simp_all add: refreshing_def geometry_same_def)
  have y0: "0 \<le> y" "y < h" using y by (simp_all add: mem_py_range)
  have s0: "0 \<le> start_line s" using ok by (simp add: screen_ok_def)
  from refresh_row [OF okt y0(1) step]
  have row: "refreshing {nat (y + start_line s)} t t'"
    and cells: "\<forall>x \<in> set (py_range (width s)). y + start_line s < buffer_height s \<and>
        synced t' (nat (y + start_line s)) (nat x)"
    by (simp_all add: eqs)
  have "{nat (y + start_line s)} \<subseteq> {r. start_line s \<le> int r \<and> int r < start_line s + h}"
    using y0 s0 by simp
  from refreshing_trans [OF t refreshing_mono [OF row this]] cells y0
  show "refreshing {r. start_line s \<le> int r \<and> int r < start_line s + h} s t' \<and>
     (0 \<le> y \<and> (\<forall>x \<in> set (py_range (width s)).
        y + start_line s < buffer_height s \<and> synced t' (nat (y + start_line s)) (nat x)))"
    by simp
next
  fix y z t t'
  assume y: "y \<in> set (py_range h)"
    and t: "refreshing {r. start_line s \<le> int r \<and> int r < start_line s + h} s t"
    and z: "0 \<le> z \<and> (\<forall>x \<in> set (py_range (width s)).
        z + start_line s < buffer_height s \<and> synced t (nat (z + start_line s)) (nat x))"
    and step: "for_each (refresh_cell y) (py_range (width t)) t = Inr t'"
  have eqs: "start_line t = start_line s" "buffer_height t = buffer_height s" "width t = width s"
    and okt: "screen_ok t"
    using t by (simp_all add: refreshing_def geometry_same_def)
  have y0: "0 \<le> y" using y by (simp add: mem_py_range)
  from refresh_row [OF okt y0 step]
  have row: "refreshing {nat (y + start_line s)} t t'" by (simp add: eqs)
  have s0: "0 \<le> start_line s" using ok by (simp add: screen_ok_def)
  have "\<forall>x \<in> set (py_range (width s)).
        z + start_line s < buffer_height s \<and> synced t' (nat (z + start_line s)) (nat x)"
  proof
    fix x
    assume "x \<in> set (py_range (width s))"
    with z have zr: "z + start_line s < buffer_height s"
      and sy: "synced t (nat (z + start_line s)) (nat x)" by simp_all
    have "nat (z + start_line s) < nat (buffer_height t)" using zr z s0
      by (simp add: eqs)
    with row sy have "synced t' (nat (z + start_line s)) (nat x)"
      unfolding refreshing_def by blast
    with zr show "z + start_line s < buffer_height s \<and> synced t' (nat (z + start_line s)) (nat x)"
      by simp
  qed
  with z show "0 \<le> z \<and> (\<forall>x \<in> set (py_range (width s)).
        z + start_line s < buffer_height s \<and> synced t' (nat (z + start_line s)) (nat x))"
    by simp
qed

section \<open>refresh\<close>

lemma funpow_prim_scroll:
  "buffers_same s ((prim_scroll ^^ n) s) \<and>
   device ((prim_scroll ^^ n) s) = device s @ replicate n Scroll"
proof (induction n)
  case 0
  then show ?case by (simp add: buffers_same_def geometry_same_def)
next
  case (Suc n)
  have "replicate n Scroll @ [Scroll] = Scroll # replicate n Scroll"
    by (simp add: replicate_append_same)
  with Suc prim_scroll_same [of "(prim_scroll ^^ n) s"] show ?case
    by (auto intro: buffers_same_trans)
qed

text \<open>
  What a \<^verbatim>\<open>refresh\<close> that returns has done: the geometry and the pending buffer are as
  before, \<^verbatim>\<open>_last_start_line\<close> has caught up, every cell of the window is in step, cells
  that were in step still are, the committed rows outside the window are as before, and
  \<^verbatim>\<open>_scroll\<close> has been called once per line scrolled since the last refresh, before any
  other primitive.
\<close>

lemma refresh_effect:
  assumes ok: "screen_ok s" and run: "refresh s = Inr s'"
  shows "screen_ok s'"
    and "screen_buffer s' = screen_buffer s \<and> double_buffer s' = double_buffer s \<and>
         height s' = height s \<and> width s' = width s \<and> buffer_height s' = buffer_height s \<and>
         start_line s' = start_line s \<and> last_start_line s' = start_line s"
    and "\<forall>y < nat (buffer_height s). \<forall>x. pending s' y x = pending s y x"
    and "\<forall>y < nat (buffer_height s). \<forall>x. synced s y x \<longrightarrow> synced s' y x"
    and "\<forall>y < nat (buffer_height s). \<forall>x.
           \<not> (start_line s \<le> int y \<and> int y < start_line s + height s) \<longrightarrow>
           committed s' y x = committed s y x"
    and "\<forall>y x. start_line s \<le> y \<and> y < start_line s + height s \<and> 0 \<le> x \<and> x < width s \<longrightarrow>
           y < buffer_height s \<and> synced s' (nat y) (nat x)"
    and "\<exists>calls. device s' =
           device s @ replicate (nat (start_line s - last_start_line s)) Scroll @ calls \<and>
           Scroll \<notin> set calls"
proof -
  define n where "n = nat (start_line s - last_start_line s)"
  define s1 where "s1 = (prim_scroll ^^ n) s"
  define s2 where "s2 = s1\<lparr>last_start_line := start_line s1\<rparr>"
  have same1: "buffers_same s s1" and dev1: "device s1 = device s @ replicate n Scroll"
    using funpow_prim_scroll [of s n] by (simp_all add: s1_def)
  have eq2: "heap s2 = heap s" "screen_buffer s2 = screen_buffer s"
    "double_buffer s2 = double_buffer s" "height s2 = height s" "width s2 = width s"
    "buffer_height s2 = buffer_height s" "start_line s2 = start_line s"
    "last_start_line s2 = start_line s" "device s2 = device s @ replicate n Scroll"
    using same1 dev1 by (simp_all add: s2_def buffers_same_def geometry_same_def)
  have ok2: "screen_ok s2"
    using ok by (simp add: screen_ok_cong [of s2 s] eq2)
  have cells2: "committed s2 = committed s" "pending s2 = pending s" "synced s2 = synced s"
    by (simp_all add: committed_def pending_def synced_def eq2 fun_eq_iff)
  have run2: "for_each (\<lambda>y t. for_each (refresh_cell y) (py_range (width t)) t)
      (py_range (height s2)) s2 = Inr s'"
    using run by (simp add: refresh_def Let_def s2_def s1_def n_def)
  from refresh_rows [OF ok2 run2]
  have inv: "refreshing {r. start_line s \<le> int r \<and> int r < start_line s + height s} s2 s'"
    and win: "\<forall>y \<in> set (py_range (height s)). 0 \<le> y \<and> (\<forall>x \<in> set (py_range (width s)).
        y + start_line s < buffer_height s \<and> synced s' (nat (y + start_line s)) (nat x))"
    by (simp_all add: eq2)
  show "screen_ok s'" using inv by (simp add: refreshing_def)
  show "screen_buffer s' = screen_buffer s \<and> double_buffer s' = double_buffer s \<and>
         height s' = height s \<and> width s' = width s \<and> buffer_height s' = buffer_height s \<and>
         start_line s' = start_line s \<and> last_start_line s' = start_line s"
    using inv by (simp add: refreshing_def geometry_same_def eq2)
  show "\<forall>y < nat (buffer_height s). \<forall>x. pending s' y x = pending s y x"
    using inv by (simp add: refreshing_def eq2 cells2)
  show "\<forall>y < nat (buffer_height s). \<forall>x. synced s y x \<longrightarrow> synced s' y x"
    using inv by (simp add: refreshing_def eq2 cells2)
  show "\<forall>y < nat (buffer_height s). \<forall>x.
           \<not> (start_line s \<le> int y \<and> int y < start_line s + height s) \<longrightarrow>
           committed s' y x = committed s y x"
    using inv by (simp add: refreshing_def eq2 cells2)
  show "\<forall>y x. start_line s \<le> y \<and> y < start_line s + height s \<and> 0 \<le> x \<and> x < width s \<longrightarrow>
           y < buffer_height s \<and> synced s' (nat y) (nat x)"
  proof (intro allI impI)
    fix y x
    assume a: "start_line s \<le> y \<and> y < start_line s + height s \<and> 0 \<le> x \<and> x < width s"
    then have "y - start_line s \<in> set (py_range (height s))" "x \<in> set (py_range (width s))"
      by (simp_all add: mem_py_range)
    with win have "(y - start_line s) + start_line s < buffer_height s \<and>
        synced s' (nat ((y - start_line s) + start_line s)) (nat x)"
      by blast
    then show "y < buffer_height s \<and> synced s' (nat y) (nat x)" by simp
  qed
  from inv obtain calls where "device s' = device s2 @ calls" "Scroll \<notin> set calls"
    unfolding refreshing_def by blast
  then show "\<exists>calls. device s' =
           device s @ replicate (nat (start_line s - last_start_line s)) Scroll @ calls \<and>
           Scroll \<notin> set calls"
    by (simp add: eq2 n_def)
qed

lemma print_at_ok:
  "screen_ok s \<Longrightarrow> print_at text x y colour attr bg transparent s = Inr s' \<Longrightarrow> screen_ok s'"
  using print_at_rows rows_changed_ok by blast

text \<open>
  Claim C1, as amended. After a \<^verbatim>\<open>refresh()\<close> that returns, the committed buffer equals the
  pending buffer in every cell of the current window, the rows from \<open>start_line\<close> to
  \<open>start_line + height - 1\<close>. The rows outside the window are not compared: there the
  committed buffer is what it was before the refresh, and so is the pending buffer, whatever
  the drawing calls have written.
\<close>

theorem refresh_commits_window:
  assumes "screen_ok s" and "refresh s = Inr s'"
  shows "(\<forall>y x. start_line s' \<le> y \<and> y < start_line s' + height s' \<and> 0 \<le> x \<and> x < width s' \<longrightarrow>
            y < buffer_height s' \<and> committed s' (nat y) (nat x) = pending s' (nat y) (nat x)) \<and>
         (\<forall>y < nat (buffer_height s'). \<forall>x.
            \<not> (start_line s' \<le> int y \<and> int y < start_line s' + height s') \<longrightarrow>
            committed s' y x = committed s y x \<and> pending s' y x = pending s y x)"
proof -
  note e = refresh_effect [OF assms]
  have eqs: "height s' = height s" "width s' = width s" "buffer_height s' = buffer_height s"
    "start_line s' = start_line s"
    using e(2) by simp_all
  have "y < buffer_height s \<and> committed s' (nat y) (nat x) = pending s' (nat y) (nat x)"
    if "start_line s \<le> y \<and> y < start_line s + height s \<and> 0 \<le> x \<and> x < width s" for y x
    using e(6) that unfolding synced_def by blast
  moreover have "committed s' y x = committed s y x \<and> pending s' y x = pending s y x"
    if "y < nat (buffer_height s)" "\<not> (start_line s \<le> int y \<and> int y < start_line s + height s)"
    for y x
    using e(3,5) that by blast
  ultimately show ?thesis
    unfolding eqs by blast
qed

text \<open>
  The witness: on a fresh curses screen of 2 by 5 with a buffer of 4 rows, \<^verbatim>\<open>"A"\<close> is
  printed at \<open>(0, 3)\<close>, below the window, and \<^verbatim>\<open>"B"\<close> at \<open>(1, 1)\<close>, inside it.
\<close>

lemma refresh_example:
  "case print_at ''A'' 0 3 7 0 0 False (CursesScreen_init 2 5 4 8) of
     Inr s1 \<Rightarrow>
       (case print_at ''B'' 1 1 3 1 2 False s1 of
          Inr s2 \<Rightarrow>
            (case refresh s2 of
               Inr s3 \<Rightarrow> pending s3 1 1 = (CHR ''B'', 3, 1, 2) \<and> pending s2 3 0 = (CHR ''A'', 7, 0, 0)
                 \<and> committed s2 3 0 = (CHR '' '', 7, 0, 0)
             | Inl e \<Rightarrow> False)
        | Inl e \<Rightarrow> False)
   | Inl e \<Rightarrow> False"
  by code_simp

theorem refresh_commits_window_witness:
  "case print_at ''A'' 0 3 7 0 0 False (CursesScreen_init 2 5 4 8) of
     Inr s1 \<Rightarrow>
       (case print_at ''B'' 1 1 3 1 2 False s1 of
          Inr s2 \<Rightarrow>
            (case refresh s2 of
               Inr s3 \<Rightarrow> committed s3 1 1 = (CHR ''B'', 3, 1, 2) \<and>
                 committed s3 3 0 = (CHR '' '', 7, 0, 0) \<and> pending s3 3 0 = (CHR ''A'', 7, 0, 0)
             | Inl e \<Rightarrow> False)
        | Inl e \<Rightarrow> False)
   | Inl e \<Rightarrow> False"
proof -
  from refresh_example obtain s1 s2 s3 where
    s1: "print_at ''A'' 0 3 7 0 0 False (CursesScreen_init 2 5 4 8) = Inr s1"
    and s2: "print_at ''B'' 1 1 3 1 2 False s1 = Inr s2"
    and s3: "refresh s2 = Inr s3"
    and cells: "pending s3 1 1 = (CHR ''B'', 3, 1, 2)" "pending s2 3 0 = (CHR ''A'', 7, 0, 0)"
      "committed s2 3 0 = (CHR '' '', 7, 0, 0)"
    by (auto split: sum.splits)
  have ok2: "screen_ok s2"
    using print_at_ok [OF print_at_ok [OF CursesScreen_init_ok s1] s2] .
  have geo: "height s2 = 2" "width s2 = 5" "buffer_height s2 = 4" "start_line s2 = 0"
    using print_at_rows [OF s1] print_at_rows [OF s2] by (simp_all add: rows_changed_def)
  have geo3: "height s3 = 2" "width s3 = 5" "buffer_height s3 = 4" "start_line s3 = 0"
    using refresh_effect(2) [OF ok2 s3] geo by simp_all
  note w = refresh_commits_window [OF ok2 s3, unfolded geo3]
  have "committed s3 (nat 1) (nat 1) = pending s3 (nat 1) (nat 1)"
    using w [THEN conjunct1, rule_format, of 1 1] by simp
  moreover have "committed s3 3 0 = committed s2 3 0 \<and> pending s3 3 0 = pending s2 3 0"
    using w [THEN conjunct2, rule_format, of 3 0] by simp
  ultimately show ?thesis using s1 s2 s3 cells by simp
qed

text \<open>
  Claim C1 as stated includes the cells outside the window. In the example above the cell
  \<open>(0, 3)\<close> holds \<^verbatim>\<open>"A"\<close> in the pending buffer and is still blank in the committed one
  after the refresh.
\<close>

theorem refresh_outside_window_counterexample:
  "\<not> isl (print_at ''A'' 0 3 7 0 0 False (CursesScreen_init 2 5 4 8)) \<and>
   \<not> isl (refresh (projr (print_at ''A'' 0 3 7 0 0 False (CursesScreen_init 2 5 4 8)))) \<and>
   committed (projr (refresh (projr (print_at ''A'' 0 3 7 0 0 False (CursesScreen_init 2 5 4 8))))) 3 0
     \<noteq> pending (projr (refresh (projr (print_at ''A'' 0 3 7 0 0 False (CursesScreen_init 2 5 4 8))))) 3 0"
  by code_simp

section \<open>Scrolling\<close>

lemma count_list_replicate: "count_list (replicate n x) x = n"
  by (induction n) simp_all

lemma funpow_scroll:
  "start_line ((scroll ^^ n) s) = start_line s + int n \<and>
   last_start_line ((scroll ^^ n) s) = last_start_line s \<and>
   device ((scroll ^^ n) s) = device s \<and>
   (screen_ok s \<longrightarrow> screen_ok ((scroll ^^ n) s))"
proof (induction n)
  case 0
  then show ?case by simp
next
  case (Suc n)
  then show ?case by (auto simp: scroll_def screen_ok_def)
qed

text \<open>
  Claim C4. Let no scroll be outstanding, that is \<^verbatim>\<open>_last_start_line = _start_line\<close>, as it is
  after the construction, after \<^verbatim>\<open>clear()\<close> and after every \<^verbatim>\<open>refresh()\<close> that returned.
  After \<open>N\<close> calls of \<^verbatim>\<open>scroll()\<close>, a \<^verbatim>\<open>refresh()\<close> that returns has called \<^verbatim>\<open>_scroll()\<close>
  exactly \<open>N\<close> times, and no scroll is outstanding again; a second \<^verbatim>\<open>refresh()\<close> straight
  after it calls \<^verbatim>\<open>_scroll()\<close> not once.
\<close>

theorem scroll_calls_counted:
  assumes "screen_ok s" and "last_start_line s = start_line s"
    and "refresh ((scroll ^^ N) s) = Inr s1" and "refresh s1 = Inr s2"
  shows "(\<exists>calls. device s1 = device s @ calls \<and> count_list calls Scroll = N) \<and>
         last_start_line s1 = start_line s1 \<and>
         (\<exists>calls. device s2 = device s1 @ calls \<and> count_list calls Scroll = 0)"
proof -
  note f = funpow_scroll [of N s]
  have ok0: "screen_ok ((scroll ^^ N) s)" using f assms(1) by simp
  from refresh_effect(7) [OF ok0 assms(3)] obtain c1 where
    c1: "device s1 = device s @ replicate N Scroll @ c1" "Scroll \<notin> set c1"
    using f assms(2) by auto
  have "count_list (replicate N Scroll @ c1) Scroll = N"
    using c1(2) by (simp add: count_list_0_iff count_list_replicate)
  with c1(1) have first: "\<exists>calls. device s1 = device s @ calls \<and> count_list calls Scroll = N"
    by blast
  have ok1: "screen_ok s1" using refresh_effect(1) [OF ok0 assms(3)] .
  have sync: "last_start_line s1 = start_line s1"
    using refresh_effect(2) [OF ok0 assms(3)] by simp
  from refresh_effect(7) [OF ok1 assms(4)] obtain c2 where
    c2: "device s2 = device s1 @ c2" "Scroll \<notin> set c2"
    using sync by auto
  then have "\<exists>calls. device s2 = device s1 @ calls \<and> count_list calls Scroll = 0"
    by (auto simp: count_list_0_iff)
  with first sync show ?thesis by simp
qed

lemma scroll_example:
  "case refresh ((scroll ^^ 2) (CursesScreen_init 2 5 4 8)) of
     Inr s1 \<Rightarrow> (case refresh s1 of Inr s2 \<Rightarrow> True | Inl e \<Rightarrow> False)
   | Inl e \<Rightarrow> False"
  by code_simp

theorem scroll_calls_counted_witness:
  "case refresh ((scroll ^^ 2) (CursesScreen_init 2 5 4 8)) of
     Inr s1 \<Rightarrow>
       (case refresh s1 of
          Inr s2 \<Rightarrow> count_list (device s1) Scroll = 2 \<and> count_list (device s2) Scroll = 2
        | Inl e \<Rightarrow> False)
   | Inl e \<Rightarrow> False"
proof -
  from scroll_example obtain s1 s2 where
    s1: "refresh ((scroll ^^ 2) (CursesScreen_init 2 5 4 8)) = Inr s1"
    and s2: "refresh s1 = Inr s2"
    by (auto split: sum.splits)
  from scroll_calls_counted [OF CursesScreen_init_ok _ s1 s2]
  have "count_list (device s1) Scroll = 2 \<and> count_list (device s2) Scroll = 2"
    by auto
  with s1 s2 show ?thesis by simp
qed

section \<open>What print_at writes\<close>

lemma pending_store:
  assumes ok: "screen_ok s" and r: "r < nat (buffer_height s)" and k: "k < nat (width s)"
    and y: "y < nat (buffer_height s)"
  shows "pending (s\<lparr>heap := (heap s)[double_buffer s ! r :=
            (heap s ! (double_buffer s ! r))[k := v]]\<rparr>) y x =
         (if y = r \<and> x = k then v else pending s y x)"
proof (cases "y = r")
  case True
  have "double_buffer s ! r < length (heap s)" using row_in_heap [OF ok r] by simp
  then show ?thesis
    using True pending_row_length [OF ok r] k by (simp add: pending_def nth_list_update)
next
  case False
  then have "double_buffer s ! y \<noteq> double_buffer s ! r"
    using pending_rows_distinct [OF ok y r] by simp
  with False show ?thesis by (simp add: pending_def)
qed

lemma print_chars_effect:
  assumes "screen_ok s" "0 \<le> y" "y < buffer_height s" "0 \<le> x + i"
    "x + i + int (length cs) \<le> width s"
  shows "\<exists>s'. print_chars cs i x y colour attr bg False s = Inr s' \<and> s' = s\<lparr>heap := heap s'\<rparr> \<and>
     (\<forall>r < nat (buffer_height s). \<forall>k. pending s' r k =
        (if r = nat y \<and> nat (x + i) \<le> k \<and> k < nat (x + i) + length cs
         then (cs ! (k - nat (x + i)), colour, attr, bg) else pending s r k))"
  using assms
proof (induction cs arbitrary: i s)
  case Nil
  then show ?case by auto
next
  case (Cons c cs)
  define v where "v = (c, colour, attr, bg)"
  define s1 where "s1 = s\<lparr>heap := (heap s)[double_buffer s ! nat y :=
      (heap s ! (double_buffer s ! nat y))[nat (x + i) := v]]\<rparr>"
  have xw: "x + i < width s" using Cons.prems(5) by simp
  have st: "store_cell (double_buffer s) y (x + i) v s = Inr s1"
    unfolding s1_def using Cons.prems(1,2,4,3) xw by (rule store_cell_pending)
  have rc: "rows_changed (set (double_buffer s)) s s1" using st by (rule store_cell_rows)
  have ok1: "screen_ok s1" using Cons.prems(1) rc by (rule rows_changed_ok)
  have geo: "buffer_height s1 = buffer_height s" "width s1 = width s"
    by (simp_all add: s1_def)
  have Y: "nat y < nat (buffer_height s)" using Cons.prems(2,3) by simp
  have K: "nat (x + i) < nat (width s)" using Cons.prems(4) xw by simp
  have p1: "pending s1 r k = (if r = nat y \<and> k = nat (x + i) then v else pending s r k)"
    if "r < nat (buffer_height s)" for r k
    unfolding s1_def using Cons.prems(1) Y K that by (rule pending_store)
  have "\<exists>s'. print_chars cs (i + 1) x y colour attr bg False s1 = Inr s' \<and>
     s' = s1\<lparr>heap := heap s'\<rparr> \<and>
     (\<forall>r < nat (buffer_height s1). \<forall>k. pending s' r k =
        (if r = nat y \<and> nat (x + (i + 1)) \<le> k \<and> k < nat (x + (i + 1)) + length cs
         then (cs ! (k - nat (x + (i + 1))), colour, attr, bg) else pending s1 r k))"
    using ok1 Cons.prems(2-5) by (intro Cons.IH) (simp_all add: geo)
  then obtain s' where run: "print_chars cs (i + 1) x y colour attr bg False s1 = Inr s'"
    and rec: "s' = s1\<lparr>heap := heap s'\<rparr>"
    and cells: "\<And>r k. r < nat (buffer_height s) \<Longrightarrow> pending s' r k =
        (if r = nat y \<and> nat (x + (i + 1)) \<le> k \<and> k < nat (x + (i + 1)) + length cs
         then (cs ! (k - nat (x + (i + 1))), colour, attr, bg) else pending s1 r k)"
    unfolding geo by blast
  have suc: "nat (x + (i + 1)) = Suc (nat (x + i))" using Cons.prems(4) by simp
  have "print_chars (c # cs) i x y colour attr bg False s = Inr s'"
    using st run by (simp add: v_def)
  moreover have "s' = s\<lparr>heap := heap s'\<rparr>"
    by (subst rec) (simp add: s1_def)
  moreover have "pending s' r k =
        (if r = nat y \<and> nat (x + i) \<le> k \<and> k < nat (x + i) + length (c # cs)
         then ((c # cs) ! (k - nat (x + i)), colour, attr, bg) else pending s r k)"
    if r: "r < nat (buffer_height s)" for r k
    unfolding cells [OF r] p1 [OF r] suc v_def
    by (auto simp: nth_Cons' Suc_diff_Suc less_Suc_eq_le)
  ultimately show ?case by blast
qed

text \<open>
  A text that starts inside the screen (or just at its right edge): the call returns, the
  cells of the row \<open>y\<close> from column \<open>x\<close> on hold the text, cut at the right edge, and
  nothing else changes.
\<close>

lemma print_at_effect:
  assumes ok: "screen_ok s" and y: "0 \<le> y" "y < buffer_height s" and x: "0 \<le> x" "x \<le> width s"
  shows "\<exists>s'. print_at text x y colour attr bg False s = Inr s' \<and> s' = s\<lparr>heap := heap s'\<rparr> \<and>
     (\<forall>r < nat (buffer_height s). \<forall>k. pending s' r k =
        (if r = nat y \<and> nat x \<le> k \<and> k < nat x + length text \<and> k < nat (width s)
         then (text ! (k - nat x), colour, attr, bg) else pending s r k))"
proof -
  define t2 where "t2 = take (nat (width s - x)) text"
  have sl: "(if x + int (length text) \<ge> width s then slice_to text (width s - x) else text) = t2"
    using x by (auto simp: slice_to_def t2_def)
  have pa: "print_at text x y colour attr bg False s =
      (if length t2 > 0 then print_chars t2 0 x y colour attr bg False s else Inr s)"
    using y x sl by (simp add: print_at_def Let_def)
  have len: "length t2 = min (length text) (nat (width s - x))" by (simp add: t2_def)
  have fits: "x + 0 + int (length t2) \<le> width s" using x len by simp
  have range: "(nat (x + 0) \<le> k \<and> k < nat (x + 0) + length t2) =
      (nat x \<le> k \<and> k < nat x + length text \<and> k < nat (width s))" for k
    using x len by auto
  have nth: "t2 ! (k - nat (x + 0)) = text ! (k - nat x)"
    if "nat x \<le> k" "k < nat x + length t2" for k
    using that by (simp add: t2_def)
  from print_chars_effect [OF ok y _ fits, of colour attr bg] x
  obtain s' where run: "print_chars t2 0 x y colour attr bg False s = Inr s'"
    and rec: "s' = s\<lparr>heap := heap s'\<rparr>"
    and cells: "\<And>r k. r < nat (buffer_height s) \<Longrightarrow> pending s' r k =
        (if r = nat y \<and> nat (x + 0) \<le> k \<and> k < nat (x + 0) + length t2
         then (t2 ! (k - nat (x + 0)), colour, attr, bg) else pending s r k)"
    by auto
  have cells': "pending s' r k =
        (if r = nat y \<and> nat x \<le> k \<and> k < nat x + length text \<and> k < nat (width s)
         then (text ! (k - nat x), colour, attr, bg) else pending s r k)"
    if r: "r < nat (buffer_height s)" for r k
    using cells [OF r, of k] range [of k] nth [of k] by auto
  show ?thesis
  proof (cases "length t2 > 0")
    case True
    then have "print_at text x y colour attr bg False s = Inr s'" using pa run by simp
    with rec cells' show ?thesis by blast
  next
    case False
    then have "print_chars t2 0 x y colour attr bg False s = Inr s" by simp
    with run have "s' = s" by simp
    moreover have "print_at text x y colour attr bg False s = Inr s" using pa False by simp
    ultimately show ?thesis using cells' by auto
  qed
qed

text \<open>
  Claim C2. Let \<open>(x, y)\<close> lie in the window of a screen that satisfies the invariant, and let
  \<^verbatim>\<open>print_at(text, x, y, colour, attr, bg)\<close> and the \<^verbatim>\<open>refresh()\<close> after it return. Then for
  every index \<open>i\<close> of the text whose cell \<open>x + i\<close> is still a column of the screen,
  \<^verbatim>\<open>get_from(x + i, y)\<close> returns \<open>(ord(text[i]), colour, attr, bg)\<close>.
\<close>

theorem print_refresh_get:
  assumes ok: "screen_ok s"
    and win: "start_line s \<le> y" "y < start_line s + height s" "0 \<le> x" "x < width s"
    and p: "print_at text x y colour attr bg False s = Inr s1"
    and r: "refresh s1 = Inr s2"
    and i: "i < length text" "x + int i < width s"
  shows "get_from (x + int i) y s2 = Inr (of_char (text ! i), colour, attr, bg)"
proof -
  have rc: "rows_changed (set (double_buffer s)) s s1" using print_at_rows [OF p] by simp
  have ok1: "screen_ok s1" using ok rc by (rule rows_changed_ok)
  have geo1: "start_line s1 = start_line s" "height s1 = height s" "width s1 = width s"
    "buffer_height s1 = buffer_height s"
    using rc by (simp_all add: rows_changed_def)
  note e = refresh_effect [OF ok1 r]
  have geo2: "buffer_height s2 = buffer_height s" "width s2 = width s"
    using e(2) geo1 by simp_all
  have y0: "0 \<le> y" using ok win(1) by (simp add: screen_ok_def)
  have cell: "y < buffer_height s \<and> synced s2 (nat y) (nat (x + int i))"
    using e(6) [rule_format, of y "x + int i"] win i(2) by (simp add: geo1)
  then have ybh: "y < buffer_height s" by simp
  define k where "k = nat (x + int i)"
  have k: "nat x \<le> k" "k < nat x + length text" "k < nat (width s)" "k - nat x = i"
    using win(3) i by (simp_all add: k_def nat_add_distrib)
  have Y: "nat y < nat (buffer_height s)" using y0 ybh by simp
  from print_at_effect [OF ok y0 ybh win(3), of "text" colour attr bg] win(4) p
  have "\<forall>r < nat (buffer_height s). \<forall>k. pending s1 r k =
        (if r = nat y \<and> nat x \<le> k \<and> k < nat x + length text \<and> k < nat (width s)
         then (text ! (k - nat x), colour, attr, bg) else pending s r k)"
    by auto
  from this [rule_format, OF Y, of k]
  have p1: "pending s1 (nat y) (nat (x + int i)) = (text ! i, colour, attr, bg)"
    using k by (simp add: k_def)
  have "pending s2 (nat y) (nat (x + int i)) = pending s1 (nat y) (nat (x + int i))"
    using e(3) y0 ybh by (simp add: geo1)
  with cell p1 have c2: "committed s2 (nat y) (nat (x + int i)) = (text ! i, colour, attr, bg)"
    by (simp add: synced_def)
  have "load_cell (screen_buffer s2) y (x + int i) s2 =
      Inr (committed s2 (nat y) (nat (x + int i)))"
    using load_cell_committed [OF e(1) y0, of "x + int i"] win(3) i(2) ybh
    by (simp add: geo2)
  then show ?thesis by (simp add: get_from_def c2)
qed

lemma print_refresh_example:
  "case print_at ''Hello'' 2 1 3 1 2 False (scroll (CursesScreen_init 2 5 4 8)) of
     Inr s1 \<Rightarrow> (case refresh s1 of Inr s2 \<Rightarrow> True | Inl e \<Rightarrow> False)
   | Inl e \<Rightarrow> False"
  by code_simp

text \<open>
  The witness: a curses screen of 2 by 5 with a buffer of 4 rows, scrolled by one line, so
  that the window is rows 1 and 2; \<^verbatim>\<open>"Hello"\<close> printed at \<open>(2, 1)\<close> is cut after
  \<^verbatim>\<open>"Hel"\<close>, and \<open>(4, 1)\<close> reads \<^verbatim>\<open>"l"\<close>, code 108.
\<close>

theorem print_refresh_get_witness:
  "case print_at ''Hello'' 2 1 3 1 2 False (scroll (CursesScreen_init 2 5 4 8)) of
     Inr s1 \<Rightarrow>
       (case refresh s1 of
          Inr s2 \<Rightarrow> get_from 2 1 s2 = Inr (72, 3, 1, 2) \<and> get_from 4 1 s2 = Inr (108, 3, 1, 2)
        | Inl e \<Rightarrow> False)
   | Inl e \<Rightarrow> False"
proof -
  define s where "s = scroll (CursesScreen_init 2 5 4 8)"
  from print_refresh_example obtain s1 s2 where
    s1: "print_at ''Hello'' 2 1 3 1 2 False s = Inr s1" and s2: "refresh s1 = Inr s2"
    by (auto simp: s_def split: sum.splits)
  have ok: "screen_ok s"
    using funpow_scroll [of 1 "CursesScreen_init 2 5 4 8"] CursesScreen_init_ok
    by (simp add: s_def)
  have geo: "start_line s = 1" "height s = 2" "width s = 5"
    by (simp_all add: s_def scroll_def)
  have "get_from (2 + int 0) 1 s2 = Inr (of_char (''Hello'' ! 0), 3, 1, 2)"
    by (rule print_refresh_get [OF ok _ _ _ _ s1 s2]) (simp_all add: geo)
  moreover have "get_from (2 + int 2) 1 s2 = Inr (of_char (''Hello'' ! 2), 3, 1, 2)"
    by (rule print_refresh_get [OF ok _ _ _ _ s1 s2]) (simp_all add: geo)
  ultimately show ?thesis using s1 s2 by (simp add: s_def)
qed

section \<open>Drawing a horizontal line with a character\<close>

lemma while_loop_stop: "\<not> cond a \<Longrightarrow> while_loop cond body a = Some (Inr a)"
  by (subst while_loop.simps) simp

lemma while_loop_step:
  "cond a \<Longrightarrow> body a = Inr a' \<Longrightarrow> while_loop cond body a = while_loop cond body a'"
  by (subst while_loop.simps) simp

lemma and_not_1: "(x::int) AND NOT 1 = 2 * (x div 2)"
proof (rule bit_eqI)
  fix n
  have "bit (x AND NOT 1) n = (bit x n \<and> n \<noteq> 0)"
    unfolding bit_and_iff bit_not_iff bit_1_iff by simp
  moreover have "bit (2 * (x div 2)) n = (n \<noteq> 0 \<and> bit (x div 2) (n - 1))"
    unfolding bit_double_iff by simp
  moreover have "n \<noteq> 0 \<Longrightarrow> bit (x div 2) (n - 1) = bit x n"
    by (cases n) (simp_all add: bit_Suc)
  ultimately show "bit (x AND NOT 1) n = bit (2 * (x div 2)) n" by blast
qed

lemma and_minus_2: "(x::int) AND - 2 = 2 * (x div 2)"
  using and_not_1 [of x] by simp

text \<open>
  One iteration of \<^verbatim>\<open>while x != x1\<close> for the line from \<open>(0, 0)\<close> to \<open>(6, 0)\<close> in sub-cell
  coordinates, drawn with \<^verbatim>\<open>char='#'\<close>: the character goes to the cell \<open>x div 2\<close> of row
  0 and \<open>x\<close> moves on by two.
\<close>

lemma hash_step:
  assumes ok: "screen_ok t" and bh: "0 < buffer_height t" and x: "0 \<le> x" "x div 2 < width t"
  shows "\<exists>t'. draw_x_body 1 1 6 0 False (Some ''#'') 7 0 (x, 0, 6, t) = Inr (x + 2, 0, 6, t') \<and>
     t' = t\<lparr>heap := heap t'\<rparr> \<and> screen_ok t' \<and>
     (\<forall>r < nat (buffer_height t). \<forall>k. pending t' r k =
        (if r = 0 \<and> k = nat (x div 2) then (CHR ''#'', 7, 0, 0) else pending t r k))"
proof -
  have x2: "0 \<le> x div 2" using x(1) by simp
  from print_at_effect [OF ok _ bh x2, of "''#''" 7 0 0] x(2)
  obtain t' where p: "print_at ''#'' (x div 2) 0 7 0 0 False t = Inr t'"
    and rec: "t' = t\<lparr>heap := heap t'\<rparr>"
    and cells: "\<And>r k. r < nat (buffer_height t) \<Longrightarrow> pending t' r k =
        (if r = nat 0 \<and> nat (x div 2) \<le> k \<and> k < nat (x div 2) + length ''#'' \<and> k < nat (width t)
         then (''#'' ! (k - nat (x div 2)), 7, 0, 0) else pending t r k)"
    by auto
  have ok': "screen_ok t'" using ok p by (rule print_at_ok)
  have cells': "pending t' r k =
        (if r = 0 \<and> k = nat (x div 2) then (CHR ''#'', 7, 0, 0) else pending t r k)"
    if r: "r < nat (buffer_height t)" for r k
    using cells [OF r, of k] x x2 by auto
  obtain n0 n1 where fold:
    "fold (x_step 1 1 6 0 False 0) (step_range 1) (0, 0, x, 0, 6) = (n0, n1, x + 2, 0, 6)"
    by (simp add: step_range_def x_step_def Let_def)
  have "draw_x_body 1 1 6 0 False (Some ''#'') 7 0 (x, 0, 6, t) = Inr (x + 2, 0, 6, t')"
    by (simp add: draw_x_body_def Let_def and_minus_2 fold plot_def p)
  with rec ok' cells' show ?thesis by blast
qed

text \<open>
  Claim C5, as amended. After \<^verbatim>\<open>move(0, 0)\<close>, on a screen with at least one buffer row and
  at least four columns, \<^verbatim>\<open>draw(3, 0, char='#')\<close> returns, writes \<^verbatim>\<open>'#'\<close> (colour 7,
  attribute 0, background 0) into the pending cells \<open>(0, 0)\<close>, \<open>(1, 0)\<close> and \<open>(2, 0)\<close>, leaves
  the pending cell \<open>(3, 0)\<close> as it was, and leaves the drawing cursor at the sub-cell
  coordinates \<open>(6, 0)\<close>, the logical coordinates \<open>(3, 0)\<close>: the loop runs while
  \<^verbatim>\<open>x != x1\<close> and the end point is not plotted.
\<close>

theorem draw_hash_line:
  assumes ok: "screen_ok s" and bh: "0 < buffer_height s" and w: "4 \<le> width s"
  shows "\<exists>s'. draw 3 0 (Some ''#'') 7 0 False (move 0 0 s) = Some (Inr s') \<and>
     cur_x s' = Some (3 * 2) \<and> cur_y s' = Some (0 * 2) \<and>
     pending s' 0 0 = (CHR ''#'', 7, 0, 0) \<and> pending s' 0 1 = (CHR ''#'', 7, 0, 0) \<and>
     pending s' 0 2 = (CHR ''#'', 7, 0, 0) \<and> pending s' 0 3 = pending s 0 3"
proof -
  define t0 where "t0 = (move 0 0 s)\<lparr>cur_x := Some 6, cur_y := Some 0\<rparr>"
  define body where "body = draw_x_body 1 1 6 0 False (Some ''#'') 7 0"
  define cond :: "line_state \<Rightarrow> bool" where "cond = (\<lambda>(x, y, err, t). x \<noteq> 6)"
  have "screen_ok t0 = screen_ok s"
    by (rule screen_ok_cong) (simp_all add: t0_def move_def)
  then have ok0: "screen_ok t0" using ok by simp
  have geo0: "buffer_height t0 = buffer_height s" "width t0 = width s"
    and cur0: "cur_x t0 = Some 6" "cur_y t0 = Some 0"
    and p0: "pending t0 = pending s"
    by (simp_all add: t0_def move_def pending_def fun_eq_iff)
  have run: "draw 3 0 (Some ''#'') 7 0 False (move 0 0 s) =
      screen_of (while_loop cond body (0, 0, 6, t0))"
    by (simp add: draw_def move_def Let_def t0_def body_def cond_def)
  have R: "0 < nat (buffer_height s)" using bh by simp
  from hash_step [OF ok0, of 0] bh w obtain t1 where
    s1: "body (0, 0, 6, t0) = Inr (2, 0, 6, t1)" and r1: "t1 = t0\<lparr>heap := heap t1\<rparr>"
    and ok1: "screen_ok t1"
    and c1: "\<And>k. pending t1 0 k = (if k = 0 then (CHR ''#'', 7, 0, 0) else pending t0 0 k)"
    using R by (auto simp: geo0 body_def)
  have geo1: "buffer_height t1 = buffer_height s" "width t1 = width s"
    by (subst r1, simp add: geo0)+
  from hash_step [OF ok1, of 2] bh w obtain t2 where
    s2: "body (2, 0, 6, t1) = Inr (4, 0, 6, t2)" and r2: "t2 = t1\<lparr>heap := heap t2\<rparr>"
    and ok2: "screen_ok t2"
    and c2: "\<And>k. pending t2 0 k = (if k = 1 then (CHR ''#'', 7, 0, 0) else pending t1 0 k)"
    using R by (auto simp: geo1 body_def)
  have geo2: "buffer_height t2 = buffer_height s" "width t2 = width s"
    by (subst r2, simp add: geo1)+
  from hash_step [OF ok2, of 4] bh w obtain t3 where
    s3: "body (4, 0, 6, t2) = Inr (6, 0, 6, t3)" and r3: "t3 = t2\<lparr>heap := heap t3\<rparr>"
    and c3: "\<And>k. pending t3 0 k = (if k = 2 then (CHR ''#'', 7, 0, 0) else pending t2 0 k)"
    using R by (auto simp: geo2 body_def)
  have "while_loop cond body (0, 0, 6, t0) = while_loop cond body (2, 0, 6, t1)"
    by (rule while_loop_step [where cond = cond and body = body]) (simp_all add: cond_def s1)
  also have "\<dots> = while_loop cond body (4, 0, 6, t2)"
    by (rule while_loop_step [where cond = cond and body = body]) (simp_all add: cond_def s2)
  also have "\<dots> = while_loop cond body (6, 0, 6, t3)"
    by (rule while_loop_step [where cond = cond and body = body]) (simp_all add: cond_def s3)
  also have "\<dots> = Some (Inr (6, 0, 6, t3))"
    by (rule while_loop_stop) (simp add: cond_def)
  finally have "draw 3 0 (Some ''#'') 7 0 False (move 0 0 s) = Some (Inr t3)"
    by (simp add: run screen_of_def)
  moreover have "cur_x t3 = Some 6" "cur_y t3 = Some 0"
    by (subst r3, subst r2, subst r1, simp add: cur0)+
  moreover have "pending t3 0 0 = (CHR ''#'', 7, 0, 0)" "pending t3 0 1 = (CHR ''#'', 7, 0, 0)"
    "pending t3 0 2 = (CHR ''#'', 7, 0, 0)" "pending t3 0 3 = pending s 0 3"
    by (simp_all add: c3 c2 c1 p0)
  ultimately show ?thesis by simp
qed

text \<open>
  The witness and the counterexample: a fresh curses screen of 2 by 5 with a buffer of 4
  rows. The claim as stated has \<^verbatim>\<open>'#'\<close> in the cell \<open>(3, 0)\<close>; the cell is still blank.
\<close>

theorem draw_hash_line_witness:
  "\<exists>s'. draw 3 0 (Some ''#'') 7 0 False (move 0 0 (CursesScreen_init 2 5 4 8)) = Some (Inr s') \<and>
     cur_x s' = Some 6 \<and> cur_y s' = Some 0 \<and>
     pending s' 0 2 = (CHR ''#'', 7, 0, 0) \<and>
     pending s' 0 3 = pending (CursesScreen_init 2 5 4 8) 0 3"
  using draw_hash_line [where s = "CursesScreen_init 2 5 4 8", OF CursesScreen_init_ok] by auto

theorem draw_end_cell_counterexample:
  "draw 3 0 (Some ''#'') 7 0 False (move 0 0 (CursesScreen_init 2 5 4 8)) \<noteq> None \<and>
   \<not> isl (the (draw 3 0 (Some ''#'') 7 0 False (move 0 0 (CursesScreen_init 2 5 4 8)))) \<and>
   pending (projr (the (draw 3 0 (Some ''#'') 7 0 False (move 0 0 (CursesScreen_init 2 5 4 8))))) 0 3
     = (CHR '' '', 7, 0, 0) \<and>
   cur_x (projr (the (draw 3 0 (Some ''#'') 7 0 False (move 0 0 (CursesScreen_init 2 5 4 8)))))
     = Some 6"
  by code_simp

section \<open>When refresh returns\<close>

lemma prim_change_colours_returns:
  assumes "accepts (backend s) (c, colour, attr, bg)"
  shows "\<exists>s'. prim_change_colours colour attr bg s = Inr s'"
proof (cases "backend s")
  case Windows
  with assms show ?thesis
    by (simp add: prim_change_colours_def log_call_def accepts_def Let_def)
next
  case Curses
  with assms show ?thesis
    by (auto simp: prim_change_colours_def log_call_def accepts_def Let_def ATTRIBUTES_keys_def)
next
  case Blessed
  with assms show ?thesis
    by (auto simp: prim_change_colours_def log_call_def accepts_def Let_def ATTRIBUTES_keys_def)
qed

lemma refresh_cell_returns:
  assumes ok: "screen_ok s" and y: "0 \<le> y" "y + start_line s < buffer_height s"
    and x: "0 \<le> x" "x < width s"
    and acc: "accepts (backend s) (pending s (nat (y + start_line s)) (nat x))"
  shows "\<exists>s'. refresh_cell y x s = Inr s'"
proof -
  define Y where "Y = nat (y + start_line s)"
  define new_cell where "new_cell = pending s Y (nat x)"
  have ys: "0 \<le> y + start_line s" using ok y by (simp add: screen_ok_def)
  have new: "load_cell (double_buffer s) (y + start_line s) x s = Inr new_cell"
    and old: "load_cell (screen_buffer s) (y + start_line s) x s = Inr (committed s Y (nat x))"
    using load_cell_pending [OF ok ys x(1)] load_cell_committed [OF ok ys x(1)] y x
    by (simp_all add: Y_def new_cell_def)
  show ?thesis
  proof (cases "committed s Y (nat x) = new_cell")
    case True
    then show ?thesis by (simp add: refresh_cell_def new old)
  next
    case False
    have "accepts (backend s) (fst new_cell, fst (snd new_cell), fst (snd (snd new_cell)),
        snd (snd (snd new_cell)))"
      using acc by (simp add: new_cell_def Y_def)
    from prim_change_colours_returns [OF this] obtain s1 where
      s1: "prim_change_colours (fst (snd new_cell)) (fst (snd (snd new_cell)))
             (snd (snd (snd new_cell))) s = Inr s1"
      by blast
    define s2 where "s2 = prim_print_at [fst new_cell] x y s1"
    have same2: "buffers_same s s2"
      using prim_change_colours_same [OF s1] prim_print_at_same [of s1 "[fst new_cell]" x y]
      unfolding s2_def by (blast intro: buffers_same_trans)
    have ok2: "screen_ok s2" using buffers_same_ok [OF same2] ok by simp
    have eqs: "start_line s2 = start_line s" "buffer_height s2 = buffer_height s"
      "width s2 = width s"
      using same2 by (simp_all add: buffers_same_def geometry_same_def)
    have "\<exists>s'. store_cell (screen_buffer s2) (y + start_line s2) x new_cell s2 = Inr s'"
      using store_cell_committed [OF ok2, of "y + start_line s2" x new_cell] ys y x
      by (simp add: eqs)
    then show ?thesis
      using False by (simp add: refresh_cell_def new old s1 Let_def s2_def)
  qed
qed

text \<open>
  \<^verbatim>\<open>refresh\<close> returns when the window lies inside the buffer and the backend accepts every
  pending cell of the window; it raises IndexError as soon as the window has a cell below
  the buffer (\<open>refresh_effect\<close> above: a refresh that returned found every window row).
\<close>

lemma refresh_returns:
  assumes ok: "screen_ok s" and fit: "start_line s + height s \<le> buffer_height s"
    and acc: "\<forall>y x. start_line s \<le> y \<and> y < start_line s + height s \<and> 0 \<le> x \<and> x < width s \<longrightarrow>
        accepts (backend s) (pending s (nat y) (nat x))"
  shows "\<exists>s'. refresh s = Inr s'"
proof -
  define s1 where "s1 = (prim_scroll ^^ nat (start_line s - last_start_line s)) s"
  define s2 where "s2 = s1\<lparr>last_start_line := start_line s1\<rparr>"
  have same1: "buffers_same s s1"
    using funpow_prim_scroll [of s] by (simp add: s1_def)
  have eq2: "heap s2 = heap s" "screen_buffer s2 = screen_buffer s"
    "double_buffer s2 = double_buffer s" "height s2 = height s" "width s2 = width s"
    "buffer_height s2 = buffer_height s" "start_line s2 = start_line s" "backend s2 = backend s"
    using same1 by (simp_all add: s2_def buffers_same_def geometry_same_def)
  have ok2: "screen_ok s2" using ok by (simp add: screen_ok_cong [of s2 s] eq2)
  have pend2: "pending s2 = pending s" by (simp add: pending_def eq2 fun_eq_iff)
  define J where "J = refreshing UNIV s2"
  have J_fields: "screen_ok t \<and> start_line t = start_line s \<and> width t = width s \<and>
      buffer_height t = buffer_height s \<and> backend t = backend s \<and>
      (\<forall>r < nat (buffer_height s). \<forall>k. pending t r k = pending s r k)" if "J t" for t
    using that by (simp add: J_def refreshing_def geometry_same_def eq2 pend2)
  have cell: "\<exists>t'. refresh_cell y x t = Inr t' \<and> J t'"
    if y: "y \<in> set (py_range (height s))" and x: "x \<in> set (py_range (width s))" and t: "J t"
    for y x t
  proof -
    note f = J_fields [OF t]
    have y0: "0 \<le> y" "y < height s" and x0: "0 \<le> x" "x < width s"
      using y x by (simp_all add: mem_py_range)
    have s0: "0 \<le> start_line s" using ok by (simp add: screen_ok_def)
    have yb: "y + start_line s < buffer_height s" using y0 fit by simp
    have "accepts (backend s) (pending s (nat (y + start_line s)) (nat x))"
      using acc [rule_format, of "y + start_line s" x] y0 x0 by simp
    moreover have "pending t (nat (y + start_line s)) (nat x) =
        pending s (nat (y + start_line s)) (nat x)"
      using f yb y0 s0 by simp
    ultimately have "\<exists>t'. refresh_cell y x t = Inr t'"
      using refresh_cell_returns [of t y x] f y0 yb x0 by simp
    then obtain t' where t': "refresh_cell y x t = Inr t'" by blast
    have "refreshing {nat (y + start_line t)} t t'"
      using refresh_cell_refreshing [OF _ y0(1) x0(1) t'] f by simp
    then have "J t'"
      using t unfolding J_def by (blast intro: refreshing_trans refreshing_mono)
    with t' show ?thesis by blast
  qed
  have row: "\<exists>t'. for_each (refresh_cell y) (py_range (width t)) t = Inr t' \<and> J t'"
    if y: "y \<in> set (py_range (height s))" and t: "J t" for y t
  proof -
    have "width t = width s" using J_fields [OF t] by simp
    then show ?thesis
      using for_each_completes [where J = J and f = "refresh_cell y"
          and xs = "py_range (width s)" and s = t] t cell [OF y]
      by simp
  qed
  have "\<exists>s'. for_each (\<lambda>y t. for_each (refresh_cell y) (py_range (width t)) t)
      (py_range (height s)) s2 = Inr s' \<and> J s'"
  proof (rule for_each_completes [where J = J])
    show "J s2" unfolding J_def using ok2 by (rule refreshing_refl)
  next
    fix y t
    assume "y \<in> set (py_range (height s))" "J t"
    then show "\<exists>t'. for_each (refresh_cell y) (py_range (width t)) t = Inr t' \<and> J t'"
      by (rule row)
  qed
  then obtain s' where "for_each (\<lambda>y t. for_each (refresh_cell y) (py_range (width t)) t)
      (py_range (height s2)) s2 = Inr s'"
    by (auto simp: eq2)
  then have "refresh s = Inr s'"
    by (simp add: refresh_def Let_def s2_def s1_def)
  then show ?thesis by blast
qed

section \<open>The invariant holds in every reachable state\<close>

lemma reachable_ok: "reachable s \<Longrightarrow> screen_ok s"
proof (induction rule: reachable.induct)
  case (reach_windows win bh)
  show ?case by (rule WindowsScreen_init_ok)
next
  case (reach_curses h w bh n)
  show ?case by (rule CursesScreen_init_ok)
next
  case (reach_blessed h w bh n)
  show ?case by (rule BlessedScreen_init_ok)
next
  case (reach_scroll s)
  then show ?case using funpow_scroll [of 1 s] by simp
next
  case (reach_clear s s')
  then show ?case by (auto simp: clear_def screen_ok_reset split: sum.splits)
next
  case (reach_refresh s s')
  then show ?case using refresh_effect(1) by blast
next
  case (reach_drawing s c s')
  then show ?case using run_call_rows rows_changed_ok by blast
next
  case (reach_has_resized s)
  have "screen_ok (snd (has_resized s)) = screen_ok s"
    by (rule screen_ok_cong) (simp_all add: has_resized_def Let_def split: backend.splits)
  with reach_has_resized show ?case by simp
next
  case (reach_resize_event s win)
  have "screen_ok (resize_event win s) = screen_ok s"
    by (rule screen_ok_cong)
      (simp_all add: resize_event_def window_resized_def resize_handler_def split: backend.splits)
  with reach_resize_event show ?case by simp
qed

end
